theory Spec2Isabelle
  imports Main "HOL-Library.Word" "HOL-Library.AList"
begin

unbundle bit_operations_syntax

section \<open>UFS: the in-memory file system of src/3/userfs.c\<close>

subsection \<open>Constants and data\<close>

text \<open>
  A byte of file data is a \<open>char\<close> of the C source. Sizes, offsets and indices are
  natural numbers: in the source they are \<open>int\<close> or \<open>size_t\<close> values between 0 and
  a little over 100 MiB, so no arithmetic on them wraps; where the source would subtract
  below zero or run past a buffer, the model returns \<open>None\<close> (undefined behaviour) instead
  of a number. The reference count is an \<open>int\<close>, as in the source.
\<close>

type_synonym byte = "8 word"

definition BLOCK_SIZE :: nat where
  "BLOCK_SIZE = 4096"

definition MAX_FILE_SIZE :: nat where
  "MAX_FILE_SIZE = 1024 * 1024 * 100"

definition CAPACITY_MULTIPLIER :: nat where
  "CAPACITY_MULTIPLIER = 2"

definition DESCRIPTOR_POOL_START_SIZE :: nat where
  "DESCRIPTOR_POOL_START_SIZE = 10"

text \<open>
  Modelled from the spec: the header userfs.h (the error codes and the open flags) is not
  among the sources. The spec lists the error codes \<open>NO_ERR = 0, NO_FILE, NO_MEM,
  NO_PERMISSION\<close> and calls the flags a bitset of \<open>CREATE, READ_ONLY, WRITE_ONLY,
  READ_WRITE\<close>: four distinct bits, taken here as 1, 2, 4 and 8. The source itself needs
  them pairwise distinct and non-zero (they label the cases of one \<open>switch\<close> next to 0).
\<close>

datatype ufs_error_code =
  UFS_ERR_NO_ERR | UFS_ERR_NO_FILE | UFS_ERR_NO_MEM | UFS_ERR_NO_PERMISSION

definition UFS_CREATE :: int where
  "UFS_CREATE = 1"

definition UFS_READ_ONLY :: int where
  "UFS_READ_ONLY = 2"

definition UFS_WRITE_ONLY :: int where
  "UFS_WRITE_ONLY = 4"

definition UFS_READ_WRITE :: int where
  "UFS_READ_WRITE = 8"

text \<open>
  \<open>struct block\<close>: the chain of a file is the list of its blocks, head first; \<open>next\<close> and
  \<open>prev\<close> are the neighbours in the list, and \<open>last_block\<close> of the file is the last
  element.
\<close>

record block =
  memory :: "byte list"
  occupied :: nat

text \<open>
  \<open>struct file\<close> (the word \<open>file\<close> is reserved in Isabelle, hence \<open>ufile\<close>). Files live
  in the global list \<open>file_list\<close>; the model keeps each file beside its address, which is
  what the field \<open>file\<close> of a descriptor holds (\<open>fileptr\<close> here).
\<close>

record ufile =
  block_list :: "block list"
  refs :: int
  name :: string
  is_removed :: bool

record filedesc =
  fileptr :: nat
  curr_data_segment :: nat
  flags :: int
  byte_pos :: nat

text \<open>
  The module's global state. \<open>file_descriptors\<close> is \<open>None\<close> while the array pointer is
  NULL. \<open>alloc_plan\<close> is the environment: the outcomes of the coming calls of malloc,
  calloc, strdup and realloc, in order (\<open>False\<close>: the call returns NULL); past the end of
  the plan every call succeeds.
\<close>

record ufs =
  ufs_error_code :: ufs_error_code
  file_list :: "(nat \<times> ufile) list"
  file_descriptors :: "filedesc option list option"
  file_descriptor_count :: nat
  file_descriptor_capacity :: nat
  alloc_plan :: "bool list"

definition alloc :: "bool list \<Rightarrow> bool \<times> bool list" where
  "alloc plan = (case plan of [] \<Rightarrow> (True, []) | ok # rest \<Rightarrow> (ok, rest))"

definition ufs_start :: "bool list \<Rightarrow> ufs" where
  "ufs_start plan =
     \<lparr>ufs_error_code = UFS_ERR_NO_ERR, file_list = [], file_descriptors = None,
      file_descriptor_count = 0, file_descriptor_capacity = 0, alloc_plan = plan\<rparr>"

definition table :: "ufs \<Rightarrow> filedesc option list" where
  "table s = (case file_descriptors s of None \<Rightarrow> [] | Some t \<Rightarrow> t)"

text \<open>
  Reading the array: an index inside it yields the slot, NULL or a descriptor. The source
  only indexes below \<open>file_descriptor_capacity\<close>; outside the array the model reads NULL.
\<close>

definition slot :: "filedesc option list \<Rightarrow> nat \<Rightarrow> filedesc option" where
  "slot t i = (if i < length t then t ! i else None)"

subsection \<open>The descriptor table\<close>

definition fd_setup :: "ufs \<Rightarrow> ufs_error_code \<times> ufs" where
  "fd_setup s =
     (case alloc (alloc_plan s) of
        (False, plan1) \<Rightarrow> (UFS_ERR_NO_MEM, s\<lparr>file_descriptors := None, alloc_plan := plan1\<rparr>)
      | (True, plan1) \<Rightarrow>
          (UFS_ERR_NO_ERR,
           s\<lparr>file_descriptors := Some (replicate DESCRIPTOR_POOL_START_SIZE None),
             file_descriptor_count := 0,
             file_descriptor_capacity := DESCRIPTOR_POOL_START_SIZE,
             alloc_plan := plan1\<rparr>))"

definition adjust_container_capacity :: "ufs \<Rightarrow> ufs_error_code \<times> ufs" where
  "adjust_container_capacity s =
     (let growth_threshold = file_descriptor_capacity s;
          shrink_threshold = file_descriptor_capacity s div CAPACITY_MULTIPLIER;
          target_capacity =
            (if file_descriptor_count s \<ge> growth_threshold
             then file_descriptor_capacity s * CAPACITY_MULTIPLIER
             else if file_descriptor_count s < shrink_threshold \<and>
                     file_descriptor_capacity s > DESCRIPTOR_POOL_START_SIZE
             then file_descriptor_capacity s div CAPACITY_MULTIPLIER
             else file_descriptor_capacity s)
      in if target_capacity = file_descriptor_capacity s then (UFS_ERR_NO_ERR, s)
         else
           (case alloc (alloc_plan s) of
              (False, plan1) \<Rightarrow> (UFS_ERR_NO_MEM, s\<lparr>alloc_plan := plan1\<rparr>)
            | (True, plan1) \<Rightarrow>
                (UFS_ERR_NO_ERR,
                 s\<lparr>file_descriptors :=
                     Some (if target_capacity > file_descriptor_capacity s
                           then table s @ replicate (target_capacity - file_descriptor_capacity s) None
                           else take target_capacity (table s)),
                   file_descriptor_capacity := target_capacity,
                   alloc_plan := plan1\<rparr>)))"

subsection \<open>Files and blocks\<close>

definition new_data_cell :: block where
  "new_data_cell = \<lparr>memory = replicate BLOCK_SIZE 0, occupied = 0\<rparr>"

definition expand_storage_unit :: "ufile \<Rightarrow> bool list \<Rightarrow> ufs_error_code \<times> ufile \<times> bool list" where
  "expand_storage_unit storage_entity plan =
     (case alloc plan of
        (False, plan1) \<Rightarrow> (UFS_ERR_NO_MEM, storage_entity, plan1)
      | (True, plan1) \<Rightarrow>
          (case alloc plan1 of
             (False, plan2) \<Rightarrow> (UFS_ERR_NO_MEM, storage_entity, plan2)
           | (True, plan2) \<Rightarrow>
               (UFS_ERR_NO_ERR,
                storage_entity\<lparr>block_list := block_list storage_entity @ [new_data_cell]\<rparr>,
                plan2)))"

text \<open>
  malloc returns the address of the new \<open>struct file\<close>: one that no live file has. Which
  one is the allocator's choice; the model takes the one above all live addresses.
\<close>

definition new_address :: "(nat \<times> ufile) list \<Rightarrow> nat" where
  "new_address files = Suc (fold max (map fst files) 0)"

definition mkfile :: "string \<Rightarrow> ufs \<Rightarrow> nat option \<times> ufs" where
  "mkfile fname s =
     (case alloc (alloc_plan s) of
        (False, plan1) \<Rightarrow> (None, s\<lparr>alloc_plan := plan1\<rparr>)
      | (True, plan1) \<Rightarrow>
          (case alloc plan1 of
             (False, plan2) \<Rightarrow> (None, s\<lparr>alloc_plan := plan2\<rparr>)
           | (True, plan2) \<Rightarrow>
               (case expand_storage_unit
                       \<lparr>block_list = [], refs = 0, name = fname, is_removed = False\<rparr> plan2 of
                  (err, new_entry, plan3) \<Rightarrow>
                    if err \<noteq> UFS_ERR_NO_ERR then (None, s\<lparr>alloc_plan := plan3\<rparr>)
                    else
                      (Some (new_address (file_list s)),
                       s\<lparr>file_list := (new_address (file_list s), new_entry) # file_list s,
                         alloc_plan := plan3\<rparr>))))"

definition rm :: "nat \<Rightarrow> ufs \<Rightarrow> ufs" where
  "rm a s = s\<lparr>file_list := AList.delete a (file_list s)\<rparr>"

text \<open>
  \<open>strncmp(name, filename, strlen(filename)) == 0 && name[strlen(filename)] == 0\<close>: the
  first characters agree and the stored name ends there.
\<close>

definition same_name :: "string \<Rightarrow> string \<Rightarrow> bool" where
  "same_name stored filename =
     (take (length filename) stored = filename \<and> length stored = length filename)"

text \<open>The result is the address of the file found, with the file it points to.\<close>

fun find :: "string \<Rightarrow> (nat \<times> ufile) list \<Rightarrow> (nat \<times> ufile) option" where
  "find filename [] = None"
| "find filename ((a, current) # rest) =
     (if \<not> is_removed current \<and> same_name (name current) filename then Some (a, current)
      else find filename rest)"

subsection \<open>Descriptors\<close>

definition create_descriptor :: "nat option \<Rightarrow> int \<Rightarrow> ufs \<Rightarrow> filedesc option \<times> ufs" where
  "create_descriptor target flgs s =
     (case target of
        None \<Rightarrow> (None, s\<lparr>ufs_error_code := UFS_ERR_NO_FILE\<rparr>)
      | Some a \<Rightarrow>
          (case alloc (alloc_plan s) of
             (False, plan1) \<Rightarrow> (None, s\<lparr>ufs_error_code := UFS_ERR_NO_MEM, alloc_plan := plan1\<rparr>)
           | (True, plan1) \<Rightarrow>
               (Some \<lparr>fileptr = a, curr_data_segment = 0, flags = flgs, byte_pos = 0\<rparr>,
                s\<lparr>ufs_error_code := UFS_ERR_NO_ERR, alloc_plan := plan1\<rparr>)))"

definition locate_descriptor :: "int \<Rightarrow> ufs \<Rightarrow> filedesc option" where
  "locate_descriptor descriptor_index s =
     (if 0 \<le> descriptor_index \<and> descriptor_index < int (file_descriptor_count s)
      then slot (table s) (nat descriptor_index) else None)"

fun first_null :: "'a option list \<Rightarrow> nat option" where
  "first_null [] = None"
| "first_null (x # xs) =
     (case x of None \<Rightarrow> Some 0 | Some y \<Rightarrow> map_option Suc (first_null xs))"

definition smallest_fd :: "ufs \<Rightarrow> int \<times> ufs" where
  "smallest_fd s =
     (case file_descriptors s of
        None \<Rightarrow> (- 1, s)
      | Some t \<Rightarrow>
          (case first_null (take (file_descriptor_capacity s) t) of
             Some fd \<Rightarrow> (int fd, s)
           | None \<Rightarrow>
               if file_descriptor_capacity s = file_descriptor_count s then
                 (case adjust_container_capacity s of
                    (err, s1) \<Rightarrow>
                      if err \<noteq> UFS_ERR_NO_ERR then (- 1, s1\<lparr>ufs_error_code := err\<rparr>)
                      else (int (file_descriptor_count s1), s1\<lparr>ufs_error_code := err\<rparr>))
               else (int (file_descriptor_count s), s)))"

definition is_readable :: "filedesc option \<Rightarrow> bool" where
  "is_readable descriptor =
     (case descriptor of
        None \<Rightarrow> False
      | Some d \<Rightarrow>
          (let access_mode = flags d
           in if access_mode = 0 \<or> access_mode = UFS_CREATE \<or>
                 access_mode = UFS_READ_ONLY \<or> access_mode = UFS_READ_WRITE
              then True else False))"

definition is_writable :: "filedesc option \<Rightarrow> bool" where
  "is_writable desc =
     (case desc of
        None \<Rightarrow> False
      | Some d \<Rightarrow>
          (let mode = flags d
           in if mode = 0 then True
              else if mode = UFS_CREATE \<or> mode = UFS_WRITE_ONLY \<or> mode = UFS_READ_WRITE
              then True else False))"

subsection \<open>ufs_open\<close>

definition ufs_open :: "string \<Rightarrow> int \<Rightarrow> ufs \<Rightarrow> int \<times> ufs" where
  "ufs_open filename flgs s0 =
     (case (if file_descriptors s0 = None
            then (case fd_setup s0 of (err, s) \<Rightarrow> (err, s\<lparr>ufs_error_code := err\<rparr>))
            else (UFS_ERR_NO_ERR, s0)) of
        (err0, s1) \<Rightarrow>
          if err0 \<noteq> UFS_ERR_NO_ERR then (- 1, s1)
          else if find filename (file_list s1) = None \<and> flgs AND UFS_CREATE = 0
          then (- 1, s1\<lparr>ufs_error_code := UFS_ERR_NO_FILE\<rparr>)
          else
            (case (case find filename (file_list s1) of
                     None \<Rightarrow> mkfile filename s1
                   | Some (a, f) \<Rightarrow> (Some a, s1)) of
               (None, s2) \<Rightarrow> (- 1, s2\<lparr>ufs_error_code := UFS_ERR_NO_MEM\<rparr>)
             | (Some target_file, s2) \<Rightarrow>
                 (case smallest_fd s2 of
                    (fd0, s3) \<Rightarrow>
                      (case (case first_null (take (file_descriptor_capacity s3) (table s3)) of
                               Some i \<Rightarrow> (UFS_ERR_NO_ERR, int i, s3)
                             | None \<Rightarrow>
                                 if fd0 = - 1 then
                                   (case adjust_container_capacity s3 of
                                      (err, s4) \<Rightarrow> (err, int (file_descriptor_count s4), s4))
                                 else (UFS_ERR_NO_ERR, fd0, s3)) of
                         (err1, free_fd, s4) \<Rightarrow>
                           if err1 \<noteq> UFS_ERR_NO_ERR then (- 1, s4)
                           else
                             (case create_descriptor (Some target_file) flgs s4 of
                                (None, s5) \<Rightarrow> (- 1, s5\<lparr>ufs_error_code := UFS_ERR_NO_MEM\<rparr>)
                              | (Some descriptor, s5) \<Rightarrow>
                                  (free_fd,
                                   s5\<lparr>ufs_error_code := UFS_ERR_NO_ERR,
                                      file_list :=
                                        AList.map_entry target_file
                                          (\<lambda>f. f\<lparr>refs := refs f + 1\<rparr>) (file_list s5),
                                      file_descriptors :=
                                        Some ((table s5)[nat free_fd := Some descriptor]),
                                      file_descriptor_count :=
                                        (if free_fd = int (file_descriptor_count s5)
                                         then Suc (file_descriptor_count s5)
                                         else file_descriptor_count s5)\<rparr>))))))"

subsection \<open>ufs_write\<close>

text \<open>
  The head of the loop body: a cursor at the end of its block moves to the next block,
  which is allocated when the chain ends there. On a failed allocation the descriptor
  stays where it was.
\<close>

definition next_block_for_write ::
  "ufile \<Rightarrow> filedesc \<Rightarrow> bool list \<Rightarrow> ufs_error_code \<times> ufile \<times> filedesc \<times> bool list" where
  "next_block_for_write f d plan =
     (if byte_pos d = BLOCK_SIZE then
        (if Suc (curr_data_segment d) < length (block_list f)
         then (UFS_ERR_NO_ERR, f,
               d\<lparr>curr_data_segment := Suc (curr_data_segment d), byte_pos := 0\<rparr>, plan)
         else
           (case expand_storage_unit f plan of
              (err, f1, plan1) \<Rightarrow>
                if err \<noteq> UFS_ERR_NO_ERR then (err, f1, d, plan1)
                else (UFS_ERR_NO_ERR, f1,
                      d\<lparr>curr_data_segment := Suc (curr_data_segment d), byte_pos := 0\<rparr>, plan1)))
      else (UFS_ERR_NO_ERR, f, d, plan))"

text \<open>memcpy into the block at the cursor, and the block's \<open>occupied\<close> raised to the new cursor.\<close>

definition copy_into_block :: "block \<Rightarrow> nat \<Rightarrow> byte list \<Rightarrow> block" where
  "copy_into_block b pos bytes =
     b\<lparr>memory := take pos (memory b) @ bytes @ drop (pos + length bytes) (memory b),
       occupied := (if pos + length bytes > occupied b then pos + length bytes else occupied b)\<rparr>"

text \<open>
  The loop of ufs_write over the bytes still to be written. The source's
  \<open>current_block\<close> is the block at index \<open>curr_data_segment\<close> throughout (both advance
  together). Dereferencing past the chain, or copying past the end of a block (a cursor
  beyond \<open>BLOCK_SIZE\<close>), is undefined: \<open>None\<close>.
\<close>

function write_loop ::
  "ufile \<Rightarrow> filedesc \<Rightarrow> byte list \<Rightarrow> nat \<Rightarrow> bool list \<Rightarrow>
   (ufs_error_code \<times> nat \<times> ufile \<times> filedesc \<times> bool list) option" where
  "write_loop f d rest total_written plan =
     (if rest = [] then Some (UFS_ERR_NO_ERR, total_written, f, d, plan)
      else if length (block_list f) \<le> curr_data_segment d \<or> BLOCK_SIZE < byte_pos d then None
      else
        (case next_block_for_write f d plan of
           (err, f1, d1, plan1) \<Rightarrow>
             if err \<noteq> UFS_ERR_NO_ERR then Some (err, total_written, f1, d1, plan1)
             else
               (let remaining_space = min (BLOCK_SIZE - byte_pos d1) (length rest);
                    current_block = block_list f1 ! curr_data_segment d1
                in write_loop
                     (f1\<lparr>block_list := (block_list f1)
                          [curr_data_segment d1 :=
                             copy_into_block current_block (byte_pos d1) (take remaining_space rest)]\<rparr>)
                     (d1\<lparr>byte_pos := byte_pos d1 + remaining_space\<rparr>)
                     (drop remaining_space rest)
                     (total_written + remaining_space)
                     plan1)))"
  by pat_completeness auto
termination
  apply (relation "measure (\<lambda>(f, d, rest, total_written, plan). length rest)")
   apply simp
  apply (auto simp: next_block_for_write_def BLOCK_SIZE_def split: if_splits prod.splits)
  done

declare write_loop.simps [simp del]

text \<open>
  ufs_write. \<open>buf\<close> is the list of the \<open>size\<close> bytes at the source's \<open>buf\<close>, so \<open>size\<close> is
  its length. The result is the returned number and the state after the call; the loop's
  changes to the file and to the descriptor are in place, so they stay after a short write.
  The sum of the size check is a \<open>size_t\<close> sum, written here over the naturals: \<open>size\<close>
  is the length of an array in memory, so with at most 100 MiB and a block added it stays
  below the \<open>size_t\<close> range.
\<close>

definition ufs_write :: "int \<Rightarrow> byte list \<Rightarrow> ufs \<Rightarrow> (int \<times> ufs) option" where
  "ufs_write fd buf s =
     (case locate_descriptor fd s of
        None \<Rightarrow> Some (- 1, s\<lparr>ufs_error_code := UFS_ERR_NO_FILE\<rparr>)
      | Some descriptor \<Rightarrow>
          if \<not> is_writable (Some descriptor)
          then Some (- 1, s\<lparr>ufs_error_code := UFS_ERR_NO_PERMISSION\<rparr>)
          else
            (case map_of (file_list s) (fileptr descriptor) of
               None \<Rightarrow> None
             | Some f \<Rightarrow>
                 if length (block_list f) \<le> curr_data_segment descriptor then None
                 else
                   (let total_size =
                          occupied (block_list f ! curr_data_segment descriptor) +
                          curr_data_segment descriptor * BLOCK_SIZE
                    in if total_size + length buf > MAX_FILE_SIZE
                       then Some (- 1, s\<lparr>ufs_error_code := UFS_ERR_NO_MEM\<rparr>)
                       else
                         (case write_loop f descriptor buf 0 (alloc_plan s) of
                            None \<Rightarrow> None
                          | Some (err, total_written, f1, d1, plan1) \<Rightarrow>
                              Some (int total_written,
                                    s\<lparr>ufs_error_code := err,
                                      file_list :=
                                        AList.map_entry (fileptr descriptor) (\<lambda>f. f1) (file_list s),
                                      file_descriptors := Some ((table s)[nat fd := Some d1]),
                                      alloc_plan := plan1\<rparr>)))))"

subsection \<open>ufs_read\<close>

text \<open>
  The loop of ufs_read: \<open>sz\<close> is the number of bytes still wanted, \<open>buf\<close> the bytes
  copied so far. A block whose \<open>occupied\<close> is below the cursor would make the unsigned
  byte count wrap and the copy run past the block: \<open>None\<close>.
\<close>

function read_loop ::
  "block list \<Rightarrow> filedesc \<Rightarrow> nat \<Rightarrow> byte list \<Rightarrow> (byte list \<times> filedesc) option" where
  "read_loop blocks d sz buf =
     (if sz = 0 then Some (buf, d)
      else if length blocks \<le> curr_data_segment d then None
      else if byte_pos d = BLOCK_SIZE \<and> \<not> Suc (curr_data_segment d) < length blocks
      then Some (buf, d)
      else
        (let d1 = (if byte_pos d = BLOCK_SIZE
                   then d\<lparr>curr_data_segment := Suc (curr_data_segment d), byte_pos := 0\<rparr>
                   else d);
             blk = blocks ! curr_data_segment d1
         in if occupied blk < byte_pos d1 \<or> length (memory blk) < occupied blk then None
            else
              (let bytes = min (occupied blk - byte_pos d1) sz
               in if bytes = 0 then Some (buf, d1)
                  else read_loop blocks (d1\<lparr>byte_pos := byte_pos d1 + bytes\<rparr>) (sz - bytes)
                         (buf @ take bytes (drop (byte_pos d1) (memory blk))))))"
  by pat_completeness auto
termination
  apply (relation "measure (\<lambda>(blocks, d, sz, buf). sz)")
   apply simp
  apply (auto simp: Let_def split: if_splits)
  done

declare read_loop.simps [simp del]

text \<open>
  ufs_read returns the number of bytes read, the bytes put into the caller's buffer, and
  the state. The walk to the descriptor's block follows \<open>curr_data_segment\<close> links from the
  head: past the chain's end that is undefined.
\<close>

definition ufs_read :: "int \<Rightarrow> nat \<Rightarrow> ufs \<Rightarrow> (int \<times> byte list \<times> ufs) option" where
  "ufs_read fd sz s =
     (case locate_descriptor fd s of
        None \<Rightarrow> Some (- 1, [], s\<lparr>ufs_error_code := UFS_ERR_NO_FILE\<rparr>)
      | Some descriptor \<Rightarrow>
          if \<not> is_readable (Some descriptor)
          then Some (- 1, [], s\<lparr>ufs_error_code := UFS_ERR_NO_PERMISSION\<rparr>)
          else
            (case map_of (file_list s) (fileptr descriptor) of
               None \<Rightarrow> None
             | Some f \<Rightarrow>
                 if length (block_list f) < curr_data_segment descriptor then None
                 else
                   (case read_loop (block_list f) descriptor sz [] of
                      None \<Rightarrow> None
                    | Some (buf, d1) \<Rightarrow>
                        Some (int (length buf), buf,
                              s\<lparr>ufs_error_code := UFS_ERR_NO_ERR,
                                file_descriptors := Some ((table s)[nat fd := Some d1])\<rparr>))))"

subsection \<open>ufs_close and ufs_delete\<close>

text \<open>The loop that drops trailing NULL slots from the logical count.\<close>

fun trim_count :: "filedesc option list \<Rightarrow> nat \<Rightarrow> nat" where
  "trim_count t 0 = 0"
| "trim_count t (Suc n) = (if slot t n = None then trim_count t n else Suc n)"

definition ufs_close :: "int \<Rightarrow> ufs \<Rightarrow> (int \<times> ufs) option" where
  "ufs_close fd s =
     (if fd < 0 \<or> int (file_descriptor_count s) \<le> fd then
        Some (- 1, s\<lparr>ufs_error_code := UFS_ERR_NO_FILE\<rparr>)
      else
        (case slot (table s) (nat fd) of
           None \<Rightarrow> Some (- 1, s\<lparr>ufs_error_code := UFS_ERR_NO_FILE\<rparr>)
         | Some desc \<Rightarrow>
             (case map_of (file_list s) (fileptr desc) of
                None \<Rightarrow> None
              | Some f \<Rightarrow>
                  (let s1 = (if refs f - 1 = 0 \<and> is_removed f
                             then s\<lparr>file_list := AList.delete (fileptr desc) (file_list s)\<rparr>
                             else s\<lparr>file_list :=
                                      AList.map_entry (fileptr desc)
                                        (\<lambda>f. f\<lparr>refs := refs f - 1\<rparr>) (file_list s)\<rparr>);
                       t2 = (table s1)[nat fd := None];
                       s2 = s1\<lparr>file_descriptors := Some t2\<rparr>;
                       s3 = (if nat fd = file_descriptor_count s2 - 1
                             then s2\<lparr>file_descriptor_count :=
                                       trim_count t2 (file_descriptor_count s2)\<rparr>
                             else s2);
                       s4 = snd (adjust_container_capacity s3)
                   in Some (0, s4\<lparr>ufs_error_code := UFS_ERR_NO_ERR\<rparr>)))))"

definition ufs_delete :: "string \<Rightarrow> ufs \<Rightarrow> int \<times> ufs" where
  "ufs_delete filename s =
     (case find filename (file_list s) of
        None \<Rightarrow> (- 1, s\<lparr>ufs_error_code := UFS_ERR_NO_FILE\<rparr>)
      | Some (file_to_delete, f) \<Rightarrow>
          (0,
           (if refs f = 0 then rm file_to_delete s
            else s\<lparr>file_list :=
                     AList.map_entry file_to_delete (\<lambda>f. f\<lparr>is_removed := True\<rparr>)
                       (file_list s)\<rparr>)
           \<lparr>ufs_error_code := UFS_ERR_NO_ERR\<rparr>))"

subsection \<open>Well-formed states\<close>

text \<open>
  What the spec's data model says of a state, as one predicate: every block is a buffer
  of \<open>BLOCK_SIZE\<close> bytes of which at most that many are occupied, and only the last block
  of a chain may be partial; the chain of a file is never empty.
\<close>

definition block_ok :: "block \<Rightarrow> bool" where
  "block_ok b \<longleftrightarrow> length (memory b) = BLOCK_SIZE \<and> occupied b \<le> BLOCK_SIZE"

definition block_full :: "block \<Rightarrow> bool" where
  "block_full b \<longleftrightarrow> occupied b = BLOCK_SIZE"

definition chain_ok :: "block list \<Rightarrow> bool" where
  "chain_ok bs \<longleftrightarrow> bs \<noteq> [] \<and> list_all block_ok bs \<and> list_all block_full (butlast bs)"

text \<open>
  The cursor of a descriptor is in a block of the chain and not past the occupied part of
  that block; a descriptor points to a live file and its cursor is in that file's chain.
\<close>

definition cur_ok :: "block list \<Rightarrow> filedesc \<Rightarrow> bool" where
  "cur_ok bs d \<longleftrightarrow>
     curr_data_segment d < length bs \<and> byte_pos d \<le> occupied (bs ! curr_data_segment d)"

definition desc_ok :: "(nat \<times> ufile) list \<Rightarrow> filedesc \<Rightarrow> bool" where
  "desc_ok files d =
     (case map_of files (fileptr d) of
        None \<Rightarrow> False
      | Some f \<Rightarrow> cur_ok (block_list f) d)"

text \<open>The number of descriptors in the table that point to the file at address \<open>a\<close>.\<close>

definition points_to :: "nat \<Rightarrow> filedesc option \<Rightarrow> bool" where
  "points_to a x = (case x of None \<Rightarrow> False | Some d \<Rightarrow> fileptr d = a)"

definition refs_to :: "nat \<Rightarrow> filedesc option list \<Rightarrow> nat" where
  "refs_to a t = length (filter (points_to a) t)"

definition file_ok :: "filedesc option list \<Rightarrow> nat \<times> ufile \<Rightarrow> bool" where
  "file_ok t af \<longleftrightarrow> chain_ok (block_list (snd af)) \<and> refs (snd af) = int (refs_to (fst af) t)"

text \<open>
  The array has \<open>file_descriptor_capacity\<close> slots, the logical count is within it, and
  every slot from the count on is NULL.
\<close>

definition table_ok :: "ufs \<Rightarrow> bool" where
  "table_ok s =
     (case file_descriptors s of
        None \<Rightarrow> file_descriptor_count s = 0 \<and> file_descriptor_capacity s = 0
      | Some t \<Rightarrow>
          length t = file_descriptor_capacity s \<and> 0 < file_descriptor_capacity s \<and>
          file_descriptor_count s \<le> file_descriptor_capacity s \<and>
          list_all (\<lambda>x. x = None) (drop (file_descriptor_count s) t))"

definition visible_names :: "(nat \<times> ufile) list \<Rightarrow> string list" where
  "visible_names files = map (name \<circ> snd) (filter (\<lambda>af. \<not> is_removed (snd af)) files)"

definition ufs_inv :: "ufs \<Rightarrow> bool" where
  "ufs_inv s \<longleftrightarrow>
     table_ok s \<and>
     distinct (map fst (file_list s)) \<and>
     distinct (visible_names (file_list s)) \<and>
     list_all (file_ok (table s)) (file_list s) \<and>
     list_all (\<lambda>x. case x of None \<Rightarrow> True | Some d \<Rightarrow> desc_ok (file_list s) d) (table s)"

text \<open>The payload of a file: the occupied bytes of its blocks, in chain order.\<close>

definition block_data :: "block \<Rightarrow> byte list" where
  "block_data b = take (occupied b) (memory b)"

definition chain_data :: "block list \<Rightarrow> byte list" where
  "chain_data bs = concat (map block_data bs)"

text \<open>The cursor of a descriptor as a byte offset into the payload.\<close>

definition cursor :: "filedesc \<Rightarrow> nat" where
  "cursor d = curr_data_segment d * BLOCK_SIZE + byte_pos d"

text \<open>The smallest index of the table that holds no descriptor (its length when all do).\<close>

definition free_index :: "filedesc option list \<Rightarrow> nat" where
  "free_index t = (case first_null t of None \<Rightarrow> length t | Some i \<Rightarrow> i)"

text \<open>
  Relations between the states of a file and of a descriptor before and after a loop:
  nothing but the chain of the file changed; nothing but the cursor of the descriptor
  changed; the chain got no shorter and no block lost occupied bytes.
\<close>

definition same_file :: "ufile \<Rightarrow> ufile \<Rightarrow> bool" where
  "same_file f f' \<longleftrightarrow> refs f' = refs f \<and> name f' = name f \<and> is_removed f' = is_removed f"

definition same_desc :: "filedesc \<Rightarrow> filedesc \<Rightarrow> bool" where
  "same_desc d d' \<longleftrightarrow> fileptr d' = fileptr d \<and> flags d' = flags d"

definition grows :: "block list \<Rightarrow> block list \<Rightarrow> bool" where
  "grows bs bs' \<longleftrightarrow> length bs \<le> length bs' \<and> (\<forall>i<length bs. occupied (bs ! i) \<le> occupied (bs' ! i))"

text \<open>
  What ufs_open works on: the file it opens (the visible file of that name, or a new one
  with one empty block) and the file list that holds it.
\<close>

definition empty_file :: "string \<Rightarrow> ufile" where
  "empty_file filename =
     \<lparr>block_list = [new_data_cell], refs = 0, name = filename, is_removed = False\<rparr>"

definition open_target :: "string \<Rightarrow> (nat \<times> ufile) list \<Rightarrow> nat" where
  "open_target filename files =
     (case find filename files of None \<Rightarrow> new_address files | Some af \<Rightarrow> fst af)"

definition open_files :: "string \<Rightarrow> (nat \<times> ufile) list \<Rightarrow> (nat \<times> ufile) list" where
  "open_files filename files =
     (case find filename files of
        None \<Rightarrow> (new_address files, empty_file filename) # files
      | Some af \<Rightarrow> files)"

text \<open>
  The reader of the round-trip property: a client that calls ufs_read with a buffer of
  \<open>sz\<close> bytes until it returns 0, and keeps what it read. It is not part of userfs.c; the
  fuel bounds the number of calls, so that a reader that never sees 0 is \<open>None\<close>, as is
  one that meets an error.
\<close>

fun read_until_eof :: "nat \<Rightarrow> int \<Rightarrow> nat \<Rightarrow> ufs \<Rightarrow> (byte list \<times> ufs) option" where
  "read_until_eof 0 fd sz s = None"
| "read_until_eof (Suc fuel) fd sz s =
     (case ufs_read fd sz s of
        None \<Rightarrow> None
      | Some (r, buf, s') \<Rightarrow>
          if r = 0 then Some ([], s')
          else if r < 0 then None
          else (case read_until_eof fuel fd sz s' of
                  None \<Rightarrow> None
                | Some (rest, s'') \<Rightarrow> Some (buf @ rest, s'')))"

text \<open>
  The payload that a descriptor sees: that of the file it points to (empty when the
  descriptor or the file is missing).
\<close>

definition payload_of :: "ufs \<Rightarrow> int \<Rightarrow> byte list" where
  "payload_of s fd =
     (case locate_descriptor fd s of
        None \<Rightarrow> []
      | Some d \<Rightarrow>
          (case map_of (file_list s) (fileptr d) of
             None \<Rightarrow> []
           | Some f \<Rightarrow> chain_data (block_list f)))"

text \<open>
  A client's state: on the empty file system, the file \<open>f\<close> is created, one byte is
  written to it, the descriptor is closed, and the file is opened again for reading and
  writing.
\<close>

definition one_byte_reopened :: ufs where
  "one_byte_reopened =
     (case ufs_open ''f'' UFS_CREATE (ufs_start []) of
        (fd, s1) \<Rightarrow>
          (case ufs_write fd [1] s1 of
             None \<Rightarrow> s1
           | Some (n, s2) \<Rightarrow>
               (case ufs_close fd s2 of
                  None \<Rightarrow> s2
                | Some (r, s3) \<Rightarrow> snd (ufs_open ''f'' UFS_READ_WRITE s3))))"

text \<open>
  A client that opens the file \<open>f\<close> with UFS_CREATE \<open>n\<close> times in a row and keeps every
  descriptor.
\<close>

fun open_many :: "nat \<Rightarrow> ufs \<Rightarrow> ufs" where
  "open_many 0 s = s"
| "open_many (Suc n) s = snd (ufs_open ''f'' UFS_CREATE (open_many n s))"

section \<open>TPOOL: the thread pool of src/4/thread_pool.c\<close>

subsection \<open>Data\<close>

text \<open>
  Modelled from the spec: the header thread_pool.h (the error codes and the limits
  \<open>TPOOL_MAX_THREADS\<close> and \<open>TPOOL_MAX_TASKS\<close>) is not among the sources. The spec lists the
  error codes \<open>INVALID_ARG, TOO_MANY_TASKS, HAS_TASKS, TASK_IN_POOL, TASK_NOT_PUSHED,
  NOT_IMPLEMENTED\<close>; \<open>TPOOL_OK\<close> stands for the return value 0 and \<open>TPOOL_NO_MEM\<close> for the
  -1 of a failed allocation. The two limits are compile-time constants whose values the
  spec does not give: the functions that use them take them as their first parameter.
\<close>

datatype tpool_code =
  TPOOL_OK | TPOOL_NO_MEM | TPOOL_ERR_INVALID_ARGUMENT | TPOOL_ERR_TOO_MANY_TASKS |
  TPOOL_ERR_HAS_TASKS | TPOOL_ERR_TASK_NOT_PUSHED | TPOOL_ERR_TASK_IN_POOL |
  TPOOL_ERR_NOT_IMPLEMENTED

datatype task_state = TASK_NEW | TASK_QUEUED | TASK_RUNNING | TASK_DONE

text \<open>
  \<open>struct thread_task\<close>. The function and its argument are not in the record: what the
  function returns is an input of the step in which a worker finishes the task. \<open>owner\<close>
  is the address of the pool or NULL; \<open>next\<close> is the task's place in the queue of the
  pool. The mutex and the condition variable carry no data.
\<close>

record thread_task =
  task_result :: int
  owner :: "nat option"
  state :: task_state

text \<open>
  \<open>struct thread_pool\<close>. The queue from \<open>task_first\<close> to \<open>task_last\<close> is the list of the
  addresses of the queued tasks, the first one at the head.
\<close>

record thread_pool =
  max_threads :: int
  threads_created :: int
  threads_busy :: int
  task_queue :: "nat list"
  task_total :: int
  shutting_down :: bool

subsection \<open>The operations\<close>

text \<open>
  A pointer argument is an option, \<open>None\<close> for NULL; a result \<open>None\<close> in place of an object
  says that the call has freed it. thread_pool_new and thread_task_new return what
  \<open>calloc\<close> gives, all fields zero, with the fields they set; the booleans say whether the
  result pointer is not NULL and whether the allocations succeed.
\<close>

definition thread_pool_new ::
  "int \<Rightarrow> int \<Rightarrow> bool \<Rightarrow> bool list \<Rightarrow> tpool_code \<times> thread_pool option" where
  "thread_pool_new TPOOL_MAX_THREADS max_thread_count pool_ptr plan =
     (if \<not> pool_ptr \<or> max_thread_count \<le> 0 \<or> max_thread_count > TPOOL_MAX_THREADS
      then (TPOOL_ERR_INVALID_ARGUMENT, None)
      else
        (case alloc plan of
           (False, plan1) \<Rightarrow> (TPOOL_NO_MEM, None)
         | (True, plan1) \<Rightarrow>
             (case alloc plan1 of
                (False, plan2) \<Rightarrow> (TPOOL_NO_MEM, None)
              | (True, plan2) \<Rightarrow>
                  (TPOOL_OK,
                   Some \<lparr>max_threads = max_thread_count, threads_created = 0, threads_busy = 0,
                         task_queue = [], task_total = 0, shutting_down = False\<rparr>))))"

definition thread_pool_thread_count :: "thread_pool option \<Rightarrow> int" where
  "thread_pool_thread_count pool = (case pool of None \<Rightarrow> 0 | Some p \<Rightarrow> threads_created p)"

text \<open>
  thread_pool_delete: the pool after the call, \<open>None\<close> when it was joined and freed. The
  workers leave between the broadcast and the joins; that part is in the steps below.
\<close>

definition thread_pool_delete :: "thread_pool option \<Rightarrow> tpool_code \<times> thread_pool option" where
  "thread_pool_delete pool =
     (case pool of
        None \<Rightarrow> (TPOOL_ERR_INVALID_ARGUMENT, None)
      | Some p \<Rightarrow>
          if task_total p > 0 \<or> threads_busy p > 0 then (TPOOL_ERR_HAS_TASKS, Some p)
          else (TPOOL_OK, None))"

text \<open>
  thread_pool_push_task: \<open>pool_address\<close> is the value of the pointer \<open>pool\<close>, \<open>task_address\<close>
  that of \<open>task\<close>, and \<open>create_ok\<close> says whether \<open>pthread_create\<close> returns 0 when it is
  called. The result is the code, the pool and the task after the call.
\<close>

definition thread_pool_push_task ::
  "int \<Rightarrow> bool \<Rightarrow> nat \<Rightarrow> thread_pool option \<Rightarrow> nat \<Rightarrow> thread_task option \<Rightarrow>
   tpool_code \<times> thread_pool option \<times> thread_task option" where
  "thread_pool_push_task TPOOL_MAX_TASKS create_ok pool_address pool task_address task =
     (case (pool, task) of
        (Some p, Some t) \<Rightarrow>
          if shutting_down p then (TPOOL_ERR_INVALID_ARGUMENT, pool, task)
          else if task_total p \<ge> TPOOL_MAX_TASKS then (TPOOL_ERR_TOO_MANY_TASKS, pool, task)
          else if state t \<noteq> TASK_NEW \<and> state t \<noteq> TASK_DONE
          then (TPOOL_ERR_TASK_IN_POOL, pool, task)
          else
            (let t1 = t\<lparr>state := TASK_QUEUED, owner := Some pool_address\<rparr>;
                 p1 = p\<lparr>task_queue := task_queue p @ [task_address],
                        task_total := task_total p + 1\<rparr>;
                 p2 = (if threads_created p1 < max_threads p1 \<and>
                          threads_busy p1 = threads_created p1
                       then (if create_ok
                             then p1\<lparr>threads_created := threads_created p1 + 1\<rparr>
                             else p1)
                       else p1)
             in (TPOOL_OK, Some p2, Some t1))
      | _ \<Rightarrow> (TPOOL_ERR_INVALID_ARGUMENT, pool, task))"

definition thread_task_new :: "bool \<Rightarrow> bool \<Rightarrow> bool list \<Rightarrow> tpool_code \<times> thread_task option" where
  "thread_task_new task_ptr function_ptr plan =
     (if \<not> task_ptr \<or> \<not> function_ptr then (TPOOL_ERR_INVALID_ARGUMENT, None)
      else
        (case alloc plan of
           (False, plan1) \<Rightarrow> (TPOOL_NO_MEM, None)
         | (True, plan1) \<Rightarrow>
             (TPOOL_OK, Some \<lparr>task_result = 0, owner = None, state = TASK_NEW\<rparr>)))"

definition thread_task_is_finished :: "thread_task option \<Rightarrow> bool" where
  "thread_task_is_finished task = (case task of None \<Rightarrow> False | Some t \<Rightarrow> state t = TASK_DONE)"

definition thread_task_is_running :: "thread_task option \<Rightarrow> bool" where
  "thread_task_is_running task = (case task of None \<Rightarrow> False | Some t \<Rightarrow> state t = TASK_RUNNING)"

text \<open>
  thread_task_join: \<open>result_ptr\<close> says whether the pointer \<open>result\<close> is not NULL. The call
  returns a code, what it stored through \<open>result\<close> (if anything) and the task after the
  call; on a task that is pushed and not yet done it waits on the task's condition, so
  for the task as it stands it does not return: \<open>None\<close>.
\<close>

definition thread_task_join ::
  "thread_task option \<Rightarrow> bool \<Rightarrow> (tpool_code \<times> int option \<times> thread_task option) option" where
  "thread_task_join task result_ptr =
     (case task of
        None \<Rightarrow> Some (TPOOL_ERR_INVALID_ARGUMENT, None, task)
      | Some t \<Rightarrow>
          if \<not> result_ptr then Some (TPOOL_ERR_INVALID_ARGUMENT, None, task)
          else if state t = TASK_NEW \<or> owner t = None
          then Some (TPOOL_ERR_TASK_NOT_PUSHED, None, task)
          else if state t \<noteq> TASK_DONE then None
          else Some (TPOOL_OK, Some (task_result t), task))"

definition thread_task_delete :: "thread_task option \<Rightarrow> tpool_code \<times> thread_task option" where
  "thread_task_delete task =
     (case task of
        None \<Rightarrow> (TPOOL_ERR_INVALID_ARGUMENT, None)
      | Some t \<Rightarrow>
          if state t = TASK_QUEUED \<or> state t = TASK_RUNNING then (TPOOL_ERR_TASK_IN_POOL, Some t)
          else (TPOOL_OK, None))"

subsection \<open>The pool and its workers, step by step\<close>

text \<open>
  The pool's fields change only under the mutex \<open>sync\<close>, so a run of the pool is a
  sequence of steps, each one critical section: a push, a worker that takes the first
  task of the queue, a worker that has run its task and gives the result, the first half
  of thread_pool_delete (the check and the shutdown flag), and a worker that sees the
  flag and leaves. A worker thread is its local variable \<open>task\<close>: it waits for a task,
  runs one, or has left. The state holds one pool (at address 0), the task objects by
  address, and the worker threads in the order of their creation.
\<close>

datatype worker = Waiting | Running nat | Exited

record tworld =
  the_pool :: thread_pool
  tasks :: "nat \<Rightarrow> thread_task option"
  workers :: "worker list"

datatype event = Push nat bool | Pickup nat | Finish nat int | Shutdown | Exit nat

fun step :: "int \<Rightarrow> event \<Rightarrow> tworld \<Rightarrow> tworld option" where
  "step TPOOL_MAX_TASKS (Push a create_ok) w =
     (case thread_pool_push_task TPOOL_MAX_TASKS create_ok 0 (Some (the_pool w)) a (tasks w a) of
        (code, Some p, t) \<Rightarrow>
          Some (w\<lparr>the_pool := p, tasks := (tasks w)(a := t),
                  workers := (if threads_created (the_pool w) < threads_created p
                              then workers w @ [Waiting] else workers w)\<rparr>)
      | (code, None, t) \<Rightarrow> None)"
| "step TPOOL_MAX_TASKS (Pickup i) w =
     (if i < length (workers w) \<and> workers w ! i = Waiting \<and>
         \<not> shutting_down (the_pool w)
      then (case task_queue (the_pool w) of
              [] \<Rightarrow> None
            | a # rest \<Rightarrow>
                (case tasks w a of
                   None \<Rightarrow> None
                 | Some t \<Rightarrow>
                     Some (w\<lparr>the_pool := (the_pool w)
                               \<lparr>task_queue := rest, task_total := task_total (the_pool w) - 1,
                                threads_busy := threads_busy (the_pool w) + 1\<rparr>,
                             tasks := (tasks w)(a := Some (t\<lparr>state := TASK_RUNNING\<rparr>)),
                             workers := (workers w)[i := Running a]\<rparr>)))
      else None)"
| "step TPOOL_MAX_TASKS (Finish i res) w =
     (if i < length (workers w)
      then (case workers w ! i of
              Running a \<Rightarrow>
                (case tasks w a of
                   None \<Rightarrow> None
                 | Some t \<Rightarrow>
                     Some (w\<lparr>the_pool := (the_pool w)
                               \<lparr>threads_busy := threads_busy (the_pool w) - 1\<rparr>,
                             tasks := (tasks w)(a := Some (t\<lparr>task_result := res, state := TASK_DONE\<rparr>)),
                             workers := (workers w)[i := Waiting]\<rparr>))
            | _ \<Rightarrow> None)
      else None)"
| "step TPOOL_MAX_TASKS Shutdown w =
     (case thread_pool_delete (Some (the_pool w)) of
        (TPOOL_OK, p) \<Rightarrow> Some (w\<lparr>the_pool := (the_pool w)\<lparr>shutting_down := True\<rparr>\<rparr>)
      | (code, p) \<Rightarrow> Some w)"
| "step TPOOL_MAX_TASKS (Exit i) w =
     (if i < length (workers w) \<and> workers w ! i = Waiting \<and> shutting_down (the_pool w)
      then Some (w\<lparr>the_pool := (the_pool w)
                      \<lparr>threads_created := threads_created (the_pool w) - 1\<rparr>,
                    workers := (workers w)[i := Exited]\<rparr>)
      else None)"

text \<open>A run: the steps in order; \<open>None\<close> when one of them cannot happen in its state.\<close>

fun run :: "int \<Rightarrow> event list \<Rightarrow> tworld \<Rightarrow> tworld option" where
  "run TPOOL_MAX_TASKS [] w = Some w"
| "run TPOOL_MAX_TASKS (e # es) w =
     (case step TPOOL_MAX_TASKS e w of
        None \<Rightarrow> None
      | Some w' \<Rightarrow> run TPOOL_MAX_TASKS es w')"

text \<open>
  A fresh pool with the cap \<open>m\<close> (what thread_pool_new returns) and task objects at the
  addresses below \<open>n\<close> as thread_task_new returns them.
\<close>

definition world_start :: "int \<Rightarrow> nat \<Rightarrow> tworld" where
  "world_start m n =
     \<lparr>the_pool = \<lparr>max_threads = m, threads_created = 0, threads_busy = 0,
                   task_queue = [], task_total = 0, shutting_down = False\<rparr>,
      tasks = (\<lambda>a. if a < n then Some \<lparr>task_result = 0, owner = None, state = TASK_NEW\<rparr>
                   else None),
      workers = []\<rparr>"



text \<open>
  What the counters count: the workers that run a task and the workers that have not
  left, the cap above them, and the tasks in the queue.
\<close>

definition live :: "worker \<Rightarrow> bool" where
  "live x = (x \<noteq> Exited)"

definition busy :: "worker \<Rightarrow> bool" where
  "busy x = (case x of Running a \<Rightarrow> True | _ \<Rightarrow> False)"


lemma alloc_Nil [simp]: "alloc [] = (True, [])"
  by (simp add: alloc_def)

lemma same_name_iff [simp]: "same_name stored filename \<longleftrightarrow> stored = filename"
  by (auto simp: same_name_def)

lemma first_null_Some:
  "first_null t = Some i \<Longrightarrow> i < length t \<and> t ! i = None \<and> (\<forall>j<i. t ! j \<noteq> None)"
proof (induction t arbitrary: i)
  case Nil
  then show ?case by simp
next
  case (Cons x xs)
  show ?case
  proof (cases x)
    case None
    with Cons.prems show ?thesis by simp
  next
    case (Some y)
    with Cons.prems obtain k where k: "first_null xs = Some k" "i = Suc k"
      by auto
    from Cons.IH [OF k(1)] Some k(2) show ?thesis
      by (auto simp: nth_Cons split: nat.splits)
  qed
qed

lemma first_null_None: "first_null t = None \<longleftrightarrow> None \<notin> set t"
  by (induction t) (auto split: option.splits)

lemma new_address_fresh: "new_address files \<notin> fst ` set files"
proof -
  have "fold max (map fst files) 0 = Max (set (0 # map fst files))"
    by (simp only: Max.set_eq_fold)
  then have "\<forall>x \<in> set (map fst files). x < new_address files"
    by (auto simp: new_address_def less_Suc_eq_le)
  then show ?thesis by auto
qed

lemma trim_count_le: "trim_count t n \<le> n"
  by (induction n) auto

lemma trim_count_None: "trim_count t n \<le> i \<Longrightarrow> i < n \<Longrightarrow> slot t i = None"
  by (induction n) (auto split: if_splits simp: less_Suc_eq)

lemma trim_count_last: "0 < trim_count t n \<Longrightarrow> slot t (trim_count t n - 1) \<noteq> None"
  by (induction n) (auto split: if_splits)


subsection \<open>Chains\<close>

lemma chain_ok_nth:
  "chain_ok bs \<longleftrightarrow>
     bs \<noteq> [] \<and> (\<forall>i<length bs. block_ok (bs ! i) \<and> (Suc i < length bs \<longrightarrow> occupied (bs ! i) = BLOCK_SIZE))"
  by (auto simp: chain_ok_def list_all_length nth_butlast block_full_def)

lemma chain_ok_block: "chain_ok bs \<Longrightarrow> i < length bs \<Longrightarrow> block_ok (bs ! i)"
  by (simp add: chain_ok_nth)

lemma chain_ok_full: "chain_ok bs \<Longrightarrow> Suc i < length bs \<Longrightarrow> occupied (bs ! i) = BLOCK_SIZE"
  by (simp add: chain_ok_nth)

lemma length_block_data: "block_ok b \<Longrightarrow> length (block_data b) = occupied b"
  by (simp add: block_data_def block_ok_def)

lemma chain_data_append [simp]: "chain_data (xs @ ys) = chain_data xs @ chain_data ys"
  by (simp add: chain_data_def)

lemma chain_data_Nil [simp]: "chain_data [] = []"
  by (simp add: chain_data_def)

lemma chain_data_Cons [simp]: "chain_data (b # bs) = block_data b @ chain_data bs"
  by (simp add: chain_data_def)

lemma length_chain_data_full:
  "list_all block_ok bs \<Longrightarrow> list_all block_full bs \<Longrightarrow> length (chain_data bs) = length bs * BLOCK_SIZE"
  by (induction bs) (auto simp: length_block_data block_full_def)

lemma chain_prefix_full:
  assumes "chain_ok bs" "i < length bs"
  shows "list_all block_ok (take i bs) \<and> list_all block_full (take i bs)"
  using assms by (auto simp: chain_ok_nth list_all_length block_full_def)

lemma length_chain_data_take:
  "chain_ok bs \<Longrightarrow> i < length bs \<Longrightarrow> length (chain_data (take i bs)) = i * BLOCK_SIZE"
  using chain_prefix_full [of bs i] by (simp add: length_chain_data_full)

lemma chain_data_split:
  "i < length bs \<Longrightarrow>
   chain_data bs = chain_data (take i bs) @ block_data (bs ! i) @ chain_data (drop (Suc i) bs)"
  by (subst id_take_nth_drop [of i bs]) (simp_all del: append_take_drop_id)

lemma chain_data_update:
  "i < length bs \<Longrightarrow>
   chain_data (bs[i := b]) = chain_data (take i bs) @ block_data b @ chain_data (drop (Suc i) bs)"
  by (simp add: upd_conv_take_nth_drop)

lemma chain_ok_update:
  assumes "chain_ok bs" "i < length bs" "block_ok b" "occupied (bs ! i) \<le> occupied b"
  shows "chain_ok (bs[i := b])"
  using assms by (auto simp: chain_ok_nth nth_list_update block_ok_def)

lemma block_ok_new [simp]: "block_ok new_data_cell"
  by (simp add: block_ok_def new_data_cell_def)

lemma block_data_new [simp]: "block_data new_data_cell = []"
  by (simp add: block_data_def new_data_cell_def)

lemma chain_ok_expand:
  assumes "chain_ok bs" "length bs = Suc k" "occupied (bs ! k) = BLOCK_SIZE"
  shows "chain_ok (bs @ [new_data_cell])"
  using assms by (auto simp: chain_ok_nth nth_append less_Suc_eq)

lemma block_data_copy:
  assumes "block_ok b" "pos \<le> occupied b" "pos + length bytes \<le> BLOCK_SIZE"
  shows "block_data (copy_into_block b pos bytes) =
         take pos (block_data b) @ bytes @ drop (pos + length bytes) (block_data b)"
  using assms
  by (auto simp: block_data_def copy_into_block_def block_ok_def min_def drop_take)

lemma block_ok_copy:
  assumes "block_ok b" "pos + length bytes \<le> BLOCK_SIZE"
  shows "block_ok (copy_into_block b pos bytes)"
  using assms by (auto simp: copy_into_block_def block_ok_def)

lemma occupied_copy: "occupied b \<le> occupied (copy_into_block b pos bytes)"
  by (simp add: copy_into_block_def)

lemma occupied_copy_pos: "pos + length bytes \<le> occupied (copy_into_block b pos bytes)"
  by (simp add: copy_into_block_def)

subsection \<open>The write loop\<close>

lemma grows_refl [simp]: "grows bs bs"
  by (simp add: grows_def)

lemma grows_trans: "grows a b \<Longrightarrow> grows b c \<Longrightarrow> grows a c"
  unfolding grows_def
proof (intro conjI allI impI)
  assume ab: "length a \<le> length b \<and> (\<forall>i<length a. occupied (a ! i) \<le> occupied (b ! i))"
    and bc: "length b \<le> length c \<and> (\<forall>i<length b. occupied (b ! i) \<le> occupied (c ! i))"
  show "length a \<le> length c" using ab bc by simp
  fix i assume i: "i < length a"
  with ab have "occupied (a ! i) \<le> occupied (b ! i)" "i < length b" by auto
  with bc show "occupied (a ! i) \<le> occupied (c ! i)" by (meson order_trans)
qed

lemma same_file_refl [simp]: "same_file f f"
  by (simp add: same_file_def)

lemma same_desc_refl [simp]: "same_desc d d"
  by (simp add: same_desc_def)

lemma cur_ok_pos: "chain_ok bs \<Longrightarrow> cur_ok bs d \<Longrightarrow> byte_pos d \<le> BLOCK_SIZE"
  using chain_ok_block [of bs "curr_data_segment d"]
  by (auto simp: cur_ok_def block_ok_def)

lemma cursor_le_data:
  assumes "chain_ok bs" "cur_ok bs d"
  shows "cursor d \<le> length (chain_data bs)"
proof -
  let ?i = "curr_data_segment d"
  from assms have i: "?i < length bs" by (simp add: cur_ok_def)
  have "length (chain_data bs) =
        ?i * BLOCK_SIZE + occupied (bs ! ?i) + length (chain_data (drop (Suc ?i) bs))"
    using chain_data_split [OF i] length_chain_data_take [OF assms(1) i]
      length_block_data [OF chain_ok_block [OF assms(1) i]]
    by simp
  with assms(2) show ?thesis by (simp add: cursor_def cur_ok_def)
qed

lemma occupied_new [simp]: "occupied new_data_cell = 0"
  by (simp add: new_data_cell_def)

lemma expand_storage_unit_Nil [simp]:
  "expand_storage_unit f [] = (UFS_ERR_NO_ERR, f\<lparr>block_list := block_list f @ [new_data_cell]\<rparr>, [])"
  by (simp add: expand_storage_unit_def)

lemma BLOCK_SIZE_pos [simp]: "0 < BLOCK_SIZE"
  by (simp add: BLOCK_SIZE_def)

lemma next_block_ok:
  assumes "chain_ok (block_list f)" "cur_ok (block_list f) d"
  shows "\<exists>f1 d1. next_block_for_write f d [] = (UFS_ERR_NO_ERR, f1, d1, []) \<and>
           chain_ok (block_list f1) \<and> cur_ok (block_list f1) d1 \<and> byte_pos d1 < BLOCK_SIZE \<and>
           cursor d1 = cursor d \<and> chain_data (block_list f1) = chain_data (block_list f) \<and>
           same_file f f1 \<and> same_desc d d1 \<and> grows (block_list f) (block_list f1)"
proof (cases "byte_pos d = BLOCK_SIZE")
  case False
  with cur_ok_pos [OF assms] assms show ?thesis
    by (simp add: next_block_for_write_def)
next
  case True
  let ?i = "curr_data_segment d"
  let ?d1 = "d\<lparr>curr_data_segment := Suc ?i, byte_pos := 0\<rparr>"
  from assms True have i: "?i < length (block_list f)" and full: "occupied (block_list f ! ?i) = BLOCK_SIZE"
    using chain_ok_block [OF assms(1), of ?i] by (auto simp: cur_ok_def block_ok_def)
  have c: "cursor ?d1 = cursor d" and sd: "same_desc d ?d1" and p: "byte_pos ?d1 < BLOCK_SIZE"
    using True by (simp_all add: cursor_def same_desc_def)
  show ?thesis
  proof (cases "Suc ?i < length (block_list f)")
    case True
    then have nb: "next_block_for_write f d [] = (UFS_ERR_NO_ERR, f, ?d1, [])"
      using \<open>byte_pos d = BLOCK_SIZE\<close> by (simp add: next_block_for_write_def)
    have "cur_ok (block_list f) ?d1"
      using True by (simp add: cur_ok_def)
    with nb assms(1) c sd p show ?thesis
      by simp
  next
    case False
    with i have len: "length (block_list f) = Suc ?i" by simp
    let ?f1 = "f\<lparr>block_list := block_list f @ [new_data_cell]\<rparr>"
    have nb: "next_block_for_write f d [] = (UFS_ERR_NO_ERR, ?f1, ?d1, [])"
      using \<open>byte_pos d = BLOCK_SIZE\<close> False by (simp add: next_block_for_write_def)
    have 1: "chain_ok (block_list ?f1)"
      using chain_ok_expand [OF assms(1) len full] by simp
    have 2: "cur_ok (block_list ?f1) ?d1"
      by (simp add: cur_ok_def len nth_append)
    have 3: "chain_data (block_list ?f1) = chain_data (block_list f)"
      by simp
    have 4: "same_file f ?f1"
      by (simp add: same_file_def)
    have 5: "grows (block_list f) (block_list ?f1)"
      by (simp add: grows_def nth_append)
    from nb 1 2 3 4 5 c sd p show ?thesis
      by simp
  qed
qed


lemma chunk_ok:
  assumes ok: "chain_ok bs" "cur_ok bs d" and pos: "byte_pos d < BLOCK_SIZE"
    and n: "length bytes \<le> BLOCK_SIZE - byte_pos d"
  defines "bs' \<equiv> bs[curr_data_segment d := copy_into_block (bs ! curr_data_segment d) (byte_pos d) bytes]"
    and "d' \<equiv> d\<lparr>byte_pos := byte_pos d + length bytes\<rparr>"
  shows "chain_ok bs' \<and> cur_ok bs' d' \<and> cursor d' = cursor d + length bytes \<and>
         chain_data bs' = take (cursor d) (chain_data bs) @ bytes @ drop (cursor d + length bytes) (chain_data bs) \<and>
         grows bs bs'"
proof -
  let ?i = "curr_data_segment d" and ?p = "byte_pos d"
  let ?b = "bs ! ?i"
  let ?P = "chain_data (take ?i bs)" and ?S = "chain_data (drop (Suc ?i) bs)"
  from ok have i: "?i < length bs" and p: "?p \<le> occupied ?b" by (simp_all add: cur_ok_def)
  have bok: "block_ok ?b" by (rule chain_ok_block [OF ok(1) i])
  from n pos have fit: "?p + length bytes \<le> BLOCK_SIZE" by simp
  have 1: "chain_ok bs'"
    unfolding bs'_def using ok(1) i block_ok_copy [OF bok fit] occupied_copy
    by (rule chain_ok_update)
  have 2: "cur_ok bs' d'"
    using i occupied_copy_pos [of ?p bytes ?b] by (simp add: cur_ok_def bs'_def d'_def)
  have 3: "cursor d' = cursor d + length bytes"
    by (simp add: cursor_def d'_def)
  have lenP: "length ?P = ?i * BLOCK_SIZE" by (rule length_chain_data_take [OF ok(1) i])
  have lenB: "length (block_data ?b) = occupied ?b" by (rule length_block_data [OF bok])
  have S: "?p + length bytes > occupied ?b \<Longrightarrow> ?S = []"
  proof -
    assume "?p + length bytes > occupied ?b"
    with fit have "occupied ?b \<noteq> BLOCK_SIZE" by simp
    with chain_ok_full [OF ok(1), of ?i] have "\<not> Suc ?i < length bs" by auto
    then show "?S = []" by simp
  qed
  have "chain_data bs' = ?P @ block_data (copy_into_block ?b ?p bytes) @ ?S"
    unfolding bs'_def by (rule chain_data_update [OF i])
  also have "\<dots> = ?P @ (take ?p (block_data ?b) @ bytes @ drop (?p + length bytes) (block_data ?b)) @ ?S"
    by (simp only: block_data_copy [OF bok p fit])
  also have "\<dots> = take (cursor d) (chain_data bs) @ bytes @ drop (cursor d + length bytes) (chain_data bs)"
  proof -
    have split: "chain_data bs = ?P @ block_data ?b @ ?S" by (rule chain_data_split [OF i])
    have t: "take (cursor d) (chain_data bs) = ?P @ take ?p (block_data ?b)"
      using p by (simp add: split cursor_def lenP lenB)
    have dr: "drop (cursor d + length bytes) (chain_data bs) = drop (?p + length bytes) (block_data ?b) @ ?S"
    proof (cases "?p + length bytes > occupied ?b")
      case True
      with S have "?S = []" by simp
      then show ?thesis by (simp add: split cursor_def lenP lenB add.assoc)
    next
      case False
      then show ?thesis by (simp add: split cursor_def lenP lenB add.assoc)
    qed
    show ?thesis by (simp add: t dr)
  qed
  finally have 4: "chain_data bs' =
      take (cursor d) (chain_data bs) @ bytes @ drop (cursor d + length bytes) (chain_data bs)" .
  have "occupied (bs ! j) \<le> occupied (bs' ! j)" if "j < length bs" for j
    using that occupied_copy [of ?b ?p bytes] by (cases "j = ?i") (simp_all add: bs'_def)
  then have 5: "grows bs bs'"
    by (simp add: grows_def bs'_def)
  from 1 2 3 4 5 show ?thesis by blast
qed

lemma splice_twice:
  assumes "c \<le> length xs" "n \<le> length rest"
  shows "take (c + n) (take c xs @ take n rest @ drop (c + n) xs) @ drop n rest @
         drop (c + n + length (drop n rest)) (take c xs @ take n rest @ drop (c + n) xs) =
         take c xs @ rest @ drop (c + length rest) xs"
proof -
  have m: "min (length xs) c = c" "min (length rest) n = n"
    using assms by simp_all
  have t: "take (c + n) (take c xs @ take n rest @ drop (c + n) xs) = take c xs @ take n rest"
    by (simp add: m)
  have d: "drop (c + n + length (drop n rest)) (take c xs @ take n rest @ drop (c + n) xs) =
           drop (c + length rest) xs"
    using assms by (simp add: m add.commute add.left_commute)
  have r: "take n rest @ drop n rest @ zs = rest @ zs" for zs
    by (simp only: append_assoc [symmetric] append_take_drop_id)
  show ?thesis
    by (simp only: t d append_assoc r)
qed

lemma write_loop_ok:
  assumes "chain_ok (block_list f)" "cur_ok (block_list f) d"
  shows "\<exists>f' d'. write_loop f d rest w [] = Some (UFS_ERR_NO_ERR, w + length rest, f', d', []) \<and>
           chain_ok (block_list f') \<and> cur_ok (block_list f') d' \<and>
           cursor d' = cursor d + length rest \<and>
           chain_data (block_list f') =
             take (cursor d) (chain_data (block_list f)) @ rest @
             drop (cursor d + length rest) (chain_data (block_list f)) \<and>
           same_file f f' \<and> same_desc d d' \<and> grows (block_list f) (block_list f')"
  using assms
proof (induction "length rest" arbitrary: f d rest w rule: less_induct)
  case less
  show ?case
  proof (cases "rest = []")
    case True
    with less.prems show ?thesis
      by (subst write_loop.simps) simp
  next
    case False
    from next_block_ok [OF less.prems] obtain f1 d1 where
      nb: "next_block_for_write f d [] = (UFS_ERR_NO_ERR, f1, d1, [])"
      and ok1: "chain_ok (block_list f1)" "cur_ok (block_list f1) d1"
      and pos1: "byte_pos d1 < BLOCK_SIZE"
      and c1: "cursor d1 = cursor d"
      and data1: "chain_data (block_list f1) = chain_data (block_list f)"
      and same1: "same_file f f1" "same_desc d d1" "grows (block_list f) (block_list f1)"
      by blast
    define n where "n = min (BLOCK_SIZE - byte_pos d1) (length rest)"
    define f2 where "f2 = f1\<lparr>block_list := (block_list f1)
        [curr_data_segment d1 :=
           copy_into_block (block_list f1 ! curr_data_segment d1) (byte_pos d1) (take n rest)]\<rparr>"
    define d2 where "d2 = d1\<lparr>byte_pos := byte_pos d1 + n\<rparr>"
    from False pos1 have n: "0 < n" "n \<le> length rest" "n \<le> BLOCK_SIZE - byte_pos d1"
      by (simp_all add: n_def)
    then have len: "length (take n rest) = n"
      by simp
    from chunk_ok [OF ok1 pos1, of "take n rest", unfolded len, OF n(3)]
    have ok2: "chain_ok (block_list f2)" "cur_ok (block_list f2) d2"
      and c2: "cursor d2 = cursor d1 + n"
      and data2: "chain_data (block_list f2) =
          take (cursor d1) (chain_data (block_list f1)) @ take n rest @
          drop (cursor d1 + n) (chain_data (block_list f1))"
      and grows2: "grows (block_list f1) (block_list f2)"
      by (simp_all add: f2_def d2_def)
    have guard: "\<not> (length (block_list f) \<le> curr_data_segment d \<or> BLOCK_SIZE < byte_pos d)"
      using less.prems cur_ok_pos [OF less.prems] by (simp add: cur_ok_def)
    have step: "write_loop f d rest w [] = write_loop f2 d2 (drop n rest) (w + n) []"
      using False guard
      by (subst write_loop.simps) (simp add: nb Let_def f2_def d2_def n_def)
    from n False have "length (drop n rest) < length rest"
      by simp
    from less.hyps [OF this ok2, of "w + n"] obtain f' d' where
      wl: "write_loop f2 d2 (drop n rest) (w + n) [] =
             Some (UFS_ERR_NO_ERR, w + n + length (drop n rest), f', d', [])"
      and ok': "chain_ok (block_list f')" "cur_ok (block_list f') d'"
      and c': "cursor d' = cursor d2 + length (drop n rest)"
      and data': "chain_data (block_list f') =
             take (cursor d2) (chain_data (block_list f2)) @ drop n rest @
             drop (cursor d2 + length (drop n rest)) (chain_data (block_list f2))"
      and same': "same_file f2 f'" "same_desc d2 d'" "grows (block_list f2) (block_list f')"
      by blast
    have cle: "cursor d \<le> length (chain_data (block_list f))"
      by (rule cursor_le_data [OF less.prems])
    have 1: "write_loop f d rest w [] = Some (UFS_ERR_NO_ERR, w + length rest, f', d', [])"
      using step wl n(2) by simp
    have 2: "cursor d' = cursor d + length rest"
      using c' c2 c1 n(2) by simp
    have 3: "chain_data (block_list f') =
             take (cursor d) (chain_data (block_list f)) @ rest @
             drop (cursor d + length rest) (chain_data (block_list f))"
      using splice_twice [OF cle n(2)] data' data2
      by (simp only: c2 c1 data1)
    have 4: "same_file f f'"
      using same1(1) same'(1) by (simp add: same_file_def f2_def)
    have 5: "same_desc d d'"
      using same1(2) same'(2) by (simp add: same_desc_def d2_def)
    have 6: "grows (block_list f) (block_list f')"
      using same1(3) grows2 same'(3) by (blast intro: grows_trans)
    from 1 ok' 2 3 4 5 6 show ?thesis
      by simp
  qed
qed

subsection \<open>The read loop\<close>

lemma length_chain_data_last:
  assumes "chain_ok bs" "length bs = Suc i"
  shows "length (chain_data bs) = i * BLOCK_SIZE + occupied (bs ! i)"
proof -
  from assms have i: "i < length bs" by simp
  from assms(2) have "drop (Suc i) bs = []" by simp
  then show ?thesis
    using chain_data_split [OF i] length_chain_data_take [OF assms(1) i]
      length_block_data [OF chain_ok_block [OF assms(1) i]]
    by simp
qed

lemma chain_window:
  assumes "chain_ok bs" "i < length bs" "p \<le> occupied (bs ! i)" "k \<le> occupied (bs ! i) - p"
  shows "take k (drop (i * BLOCK_SIZE + p) (chain_data bs)) = take k (drop p (memory (bs ! i)))"
proof -
  let ?b = "bs ! i"
  have bok: "block_ok ?b" by (rule chain_ok_block [OF assms(1,2)])
  have lenP: "length (chain_data (take i bs)) = i * BLOCK_SIZE"
    by (rule length_chain_data_take [OF assms(1,2)])
  have "drop (i * BLOCK_SIZE + p) (chain_data bs) =
        drop p (block_data ?b) @ chain_data (drop (Suc i) bs)"
    using assms(3) length_block_data [OF bok]
    by (subst chain_data_split [OF assms(2)]) (simp add: lenP)
  moreover have "k \<le> length (drop p (block_data ?b))"
    using assms(4) length_block_data [OF bok] by simp
  ultimately have "take k (drop (i * BLOCK_SIZE + p) (chain_data bs)) = take k (drop p (block_data ?b))"
    by simp
  also have "\<dots> = take k (drop p (memory ?b))"
    using assms(3,4) by (simp add: block_data_def drop_take min_def)
  finally show ?thesis .
qed

lemma take_window:
  "a \<le> sz \<Longrightarrow> take a (drop c xs) @ take (sz - a) (drop (c + a) xs) = take sz (drop c xs)"
  using take_add [of a "sz - a" "drop c xs"] by (simp add: add.commute)

lemma read_loop_ok:
  assumes "chain_ok bs" "cur_ok bs d"
  shows "\<exists>d'. read_loop bs d sz buf = Some (buf @ take sz (drop (cursor d) (chain_data bs)), d') \<and>
           cur_ok bs d' \<and>
           cursor d' = cursor d + length (take sz (drop (cursor d) (chain_data bs))) \<and>
           same_desc d d'"
  using assms(2)
proof (induction sz arbitrary: d buf rule: less_induct)
  case (less sz)
  let ?i = "curr_data_segment d" and ?p = "byte_pos d"
  from less.prems have i: "?i < length bs" and p: "?p \<le> occupied (bs ! ?i)"
    by (simp_all add: cur_ok_def)
  have pB: "?p \<le> BLOCK_SIZE" by (rule cur_ok_pos [OF assms(1) less.prems])
  show ?case
  proof (cases "sz = 0")
    case True
    with less.prems show ?thesis
      by (subst read_loop.simps) simp
  next
    case sz: False
    show ?thesis
    proof (cases "?p = BLOCK_SIZE \<and> \<not> Suc ?i < length bs")
      case True
      with i have len: "length bs = Suc ?i" by simp
      from True p chain_ok_block [OF assms(1) i] have "occupied (bs ! ?i) = BLOCK_SIZE"
        by (simp add: block_ok_def)
      with length_chain_data_last [OF assms(1) len] True
      have "length (chain_data bs) = cursor d"
        by (simp add: cursor_def)
      then have "drop (cursor d) (chain_data bs) = []"
        by simp
      with True i sz less.prems show ?thesis
        by (subst read_loop.simps) simp
    next
      case False
      define d1 where "d1 = (if ?p = BLOCK_SIZE
         then d\<lparr>curr_data_segment := Suc ?i, byte_pos := 0\<rparr> else d)"
      let ?j = "curr_data_segment d1" and ?q = "byte_pos d1"
      let ?blk = "bs ! ?j"
      have ok1: "cur_ok bs d1" and c1: "cursor d1 = cursor d" and sd1: "same_desc d d1"
        and q: "?q < BLOCK_SIZE"
        using False less.prems pB by (auto simp: d1_def cur_ok_def cursor_def same_desc_def)
      then have j: "?j < length bs" and qo: "?q \<le> occupied ?blk"
        by (simp_all add: cur_ok_def)
      have bok: "block_ok ?blk" by (rule chain_ok_block [OF assms(1) j])
      then have guard: "\<not> (occupied ?blk < ?q \<or> length (memory ?blk) < occupied ?blk)"
        using qo by (simp add: block_ok_def)
      define n where "n = min (occupied ?blk - ?q) sz"
      show ?thesis
      proof (cases "n = 0")
        case True
        with sz qo have "occupied ?blk = ?q" by (simp add: n_def)
        with q have nf: "occupied ?blk \<noteq> BLOCK_SIZE" by simp
        with chain_ok_full [OF assms(1), of ?j] have "\<not> Suc ?j < length bs" by auto
        with j have len: "length bs = Suc ?j" by simp
        from length_chain_data_last [OF assms(1) len] \<open>occupied ?blk = ?q\<close>
        have "length (chain_data bs) = cursor d1" by (simp add: cursor_def)
        then have e: "drop (cursor d) (chain_data bs) = []"
          using c1 by simp
        have "read_loop bs d sz buf = Some (buf, d1)"
          using sz i
          by (subst read_loop.simps)
            (simp add: False guard True Let_def d1_def [symmetric] n_def [symmetric])
        with e ok1 c1 sd1 show ?thesis by simp
      next
        case nz: False
        define d2 where "d2 = d1\<lparr>byte_pos := ?q + n\<rparr>"
        have nle: "n \<le> sz" "n \<le> occupied ?blk - ?q" by (simp_all add: n_def)
        have step: "read_loop bs d sz buf =
              read_loop bs d2 (sz - n) (buf @ take n (drop ?q (memory ?blk)))"
          using sz i
          by (subst read_loop.simps)
            (simp add: False guard nz Let_def d1_def [symmetric] n_def [symmetric] d2_def)
        have ok2: "cur_ok bs d2" and c2: "cursor d2 = cursor d + n" and sd2: "same_desc d1 d2"
          using ok1 nle(2) qo c1 by (simp_all add: d2_def cur_ok_def cursor_def same_desc_def)
        from nz sz have "sz - n < sz" by simp
        from less.IH [OF this ok2, of "buf @ take n (drop ?q (memory ?blk))"] obtain d' where
          rl: "read_loop bs d2 (sz - n) (buf @ take n (drop ?q (memory ?blk))) =
                 Some ((buf @ take n (drop ?q (memory ?blk))) @
                       take (sz - n) (drop (cursor d2) (chain_data bs)), d')"
          and ok': "cur_ok bs d'"
          and c': "cursor d' = cursor d2 + length (take (sz - n) (drop (cursor d2) (chain_data bs)))"
          and sd': "same_desc d2 d'"
          by blast
        have w: "take n (drop (cursor d) (chain_data bs)) = take n (drop ?q (memory ?blk))"
          using chain_window [OF assms(1) j qo nle(2)] c1 by (simp add: cursor_def)
        have tw: "take n (drop ?q (memory ?blk)) @ take (sz - n) (drop (cursor d2) (chain_data bs)) =
                  take sz (drop (cursor d) (chain_data bs))"
          using take_window [OF nle(1), of "cursor d" "chain_data bs"] by (simp add: w c2)
        have 1: "read_loop bs d sz buf = Some (buf @ take sz (drop (cursor d) (chain_data bs)), d')"
          using step rl tw by simp
        have "length (take n (drop ?q (memory ?blk))) = n"
          using nle(2) bok qo by (auto simp: block_ok_def min_def)
        with tw have "length (take sz (drop (cursor d) (chain_data bs))) =
              n + length (take (sz - n) (drop (cursor d2) (chain_data bs)))"
          by (metis length_append)
        with c' c2 have 2: "cursor d' = cursor d + length (take sz (drop (cursor d) (chain_data bs)))"
          by simp
        have 3: "same_desc d d'"
          using sd1 sd2 sd' by (simp add: same_desc_def)
        from 1 ok' 2 3 show ?thesis by simp
      qed
    qed
  qed
qed

subsection \<open>The file list and the table\<close>

lemma table_simps [simp]:
  "table (s\<lparr>ufs_error_code := e\<rparr>) = table s"
  "table (s\<lparr>alloc_plan := p\<rparr>) = table s"
  "table (s\<lparr>file_list := fl\<rparr>) = table s"
  "table (s\<lparr>file_descriptor_count := n\<rparr>) = table s"
  "table (s\<lparr>file_descriptor_capacity := n\<rparr>) = table s"
  "table (s\<lparr>file_descriptors := Some t\<rparr>) = t"
  "table (s\<lparr>file_descriptors := None\<rparr>) = []"
  by (simp_all add: table_def)

lemma table_ok_simps [simp]:
  "table_ok (s\<lparr>ufs_error_code := e\<rparr>) = table_ok s"
  "table_ok (s\<lparr>alloc_plan := p\<rparr>) = table_ok s"
  "table_ok (s\<lparr>file_list := fl\<rparr>) = table_ok s"
  by (simp_all add: table_ok_def cong: option.case_cong)

lemma ufs_inv_simps [simp]:
  "ufs_inv (s\<lparr>ufs_error_code := e\<rparr>) = ufs_inv s"
  "ufs_inv (s\<lparr>alloc_plan := p\<rparr>) = ufs_inv s"
  by (simp_all add: ufs_inv_def cong: option.case_cong)

lemma slot_simps [simp]:
  "i < length t \<Longrightarrow> slot t i = t ! i"
  "length t \<le> i \<Longrightarrow> slot t i = None"
  by (simp_all add: slot_def)

lemma map_of_in_set: "distinct (map fst fl) \<Longrightarrow> map_of fl a = Some f \<longleftrightarrow> (a, f) \<in> set fl"
  by (auto dest: map_of_SomeD)

lemma files_all_iff:
  "distinct (map fst fl) \<Longrightarrow> list_all P fl \<longleftrightarrow> (\<forall>a f. map_of fl a = Some f \<longrightarrow> P (a, f))"
  by (auto simp: list_all_iff map_of_in_set)

lemma descs_all_iff:
  "list_all (\<lambda>x. case x of None \<Rightarrow> True | Some d \<Rightarrow> Q d) t \<longleftrightarrow>
   (\<forall>i d. i < length t \<longrightarrow> t ! i = Some d \<longrightarrow> Q d)"
  by (auto simp: list_all_length split: option.splits)

lemma ufs_inv_iff:
  "ufs_inv s \<longleftrightarrow>
     table_ok s \<and> distinct (map fst (file_list s)) \<and> distinct (visible_names (file_list s)) \<and>
     (\<forall>a f. map_of (file_list s) a = Some f \<longrightarrow>
        chain_ok (block_list f) \<and> refs f = int (refs_to a (table s))) \<and>
     (\<forall>i d. i < length (table s) \<longrightarrow> table s ! i = Some d \<longrightarrow> desc_ok (file_list s) d)"
proof (cases "distinct (map fst (file_list s))")
  case True
  show ?thesis
    unfolding ufs_inv_def files_all_iff [OF True] descs_all_iff
    by (simp add: file_ok_def)
next
  case False
  then show ?thesis by (simp add: ufs_inv_def)
qed

lemma ufs_inv_start: "ufs_inv (ufs_start plan)"
  by (simp add: ufs_inv_def ufs_start_def table_ok_def table_def visible_names_def)

lemma find_Some:
  "find filename fl = Some (a, f) \<Longrightarrow> (a, f) \<in> set fl \<and> \<not> is_removed f \<and> name f = filename"
  by (induction fl) (auto split: if_splits)

lemma visible_names_simps [simp]:
  "visible_names [] = []"
  "visible_names ((a, f) # fl) =
     (if is_removed f then visible_names fl else name f # visible_names fl)"
  by (simp_all add: visible_names_def)

lemma find_None: "find filename fl = None \<longleftrightarrow> filename \<notin> set (visible_names fl)"
  by (induction fl) (auto split: if_splits)

lemma find_map_of:
  "distinct (map fst fl) \<Longrightarrow> find filename fl = Some (a, f) \<Longrightarrow> map_of fl a = Some f"
  by (simp add: find_Some map_of_in_set)

lemma map_fst_map_entry [simp]: "map fst (AList.map_entry a g fl) = map fst fl"
  by (induction fl) auto

lemma visible_names_map_entry:
  assumes "\<And>f. name (g f) = name f" "\<And>f. is_removed (g f) = is_removed f"
  shows "visible_names (AList.map_entry a g fl) = visible_names fl"
proof (induction fl)
  case Nil
  show ?case by simp
next
  case (Cons x fl)
  then show ?case by (cases x) (simp add: assms)
qed

lemma find_map_entry:
  assumes "\<And>f. name (g f) = name f" "\<And>f. is_removed (g f) = is_removed f"
    and "distinct (map fst fl)"
  shows "find filename (AList.map_entry a g fl) =
         map_option (\<lambda>(b, f). (b, if b = a then g f else f)) (find filename fl)"
  using assms(3)
proof (induction fl)
  case Nil
  show ?case by simp
next
  case (Cons x fl)
  obtain b f where x: "x = (b, f)" by (cases x)
  show ?case
  proof (cases "b = a")
    case False
    with Cons x show ?thesis by (simp add: assms(1,2))
  next
    case True
    with Cons.prems x have "a \<notin> fst ` set fl" by simp
    then have "map_option (\<lambda>(b, f). (b, if b = a then g f else f)) (find filename fl) = find filename fl"
      by (cases "find filename fl") (auto dest!: find_Some simp: image_iff)
    with True x show ?thesis by (simp add: assms(1,2))
  qed
qed

lemma refs_to_simps [simp]:
  "refs_to a [] = 0"
  "refs_to a (replicate n None) = 0"
  "refs_to a (t @ u) = refs_to a t + refs_to a u"
  by (simp_all add: refs_to_def points_to_def)

lemma refs_to_all_None: "list_all (\<lambda>x. x = None) t \<Longrightarrow> refs_to a t = 0"
  by (induction t) (auto simp: refs_to_def points_to_def)

lemma refs_to_take:
  "list_all (\<lambda>x. x = None) (drop n t) \<Longrightarrow> refs_to a (take n t) = refs_to a t"
  using refs_to_simps(3) [of a "take n t" "drop n t"] by (simp add: refs_to_all_None)

lemma refs_to_Cons [simp]:
  "refs_to a (x # t) = (if points_to a x then Suc (refs_to a t) else refs_to a t)"
  by (simp add: refs_to_def)

lemma refs_to_update:
  "i < length t \<Longrightarrow>
   refs_to a (t[i := x]) + (if points_to a (t ! i) then 1 else 0) =
   refs_to a t + (if points_to a x then 1 else 0)"
proof (induction t arbitrary: i)
  case Nil
  then show ?case by simp
next
  case (Cons y t)
  show ?case
  proof (cases i)
    case 0
    then show ?thesis by simp
  next
    case (Suc k)
    with Cons.prems have "k < length t" by simp
    from Cons.IH [OF this] Suc show ?thesis by simp
  qed
qed

lemma refs_to_zero: "refs_to a t = 0 \<longleftrightarrow> (\<forall>i<length t. \<not> points_to a (t ! i))"
  by (simp add: refs_to_def filter_empty_conv all_set_conv_all_nth)

subsection \<open>Free slots\<close>

lemma free_index_Some: "first_null t = Some i \<Longrightarrow> free_index t = i"
  by (simp add: free_index_def)

lemma free_index_le: "free_index t \<le> length t"
  using first_null_Some [of t] by (auto simp: free_index_def split: option.splits)

lemma free_index_free: "slot t (free_index t) = None"
  using first_null_Some [of t] by (auto simp: free_index_def slot_def split: option.splits)

lemma free_index_least: "j < free_index t \<Longrightarrow> slot t j \<noteq> None"
proof (cases "first_null t")
  case None
  then have "None \<notin> set t" by (simp add: first_null_None)
  moreover assume "j < free_index t"
  ultimately show ?thesis
    using None nth_mem [of j t] by (cases "t ! j") (auto simp: free_index_def slot_def)
next
  case (Some i)
  assume "j < free_index t"
  with Some first_null_Some [OF Some] show ?thesis
    by (auto simp: free_index_def slot_def)
qed

lemma free_index_unique:
  assumes "slot t i = None" "\<And>j. j < i \<Longrightarrow> slot t j \<noteq> None"
  shows "free_index t = i"
proof (rule antisym)
  show "free_index t \<le> i"
    using free_index_least [of i t] assms(1) by (cases "i < free_index t") auto
  show "i \<le> free_index t"
    using assms(2) [of "free_index t"] free_index_free [of t] by (cases "free_index t < i") auto
qed

lemma first_null_grown:
  "first_null t = None \<Longrightarrow> 0 < n \<Longrightarrow> first_null (t @ replicate n None) = Some (length t)"
proof (induction t)
  case Nil
  then show ?case by (cases n) simp_all
next
  case (Cons x t)
  then show ?case by (cases x) (simp_all split: option.splits)
qed

lemma first_null_free_index:
  "free_index t < length t \<Longrightarrow> first_null t = Some (free_index t)"
  by (auto simp: free_index_def split: option.splits)

lemma free_index_le_count:
  assumes "n \<le> length t" "list_all (\<lambda>x. x = None) (drop n t)"
  shows "free_index t \<le> n"
proof (cases "n < length t")
  case False
  with assms(1) free_index_le [of t] show ?thesis by simp
next
  case True
  with assms(2) have "t ! n = None"
    by (auto simp: list_all_length dest: spec [of _ 0])
  with True have "slot t n = None" by simp
  with free_index_least [of n t] show ?thesis
    by (cases "n < free_index t") auto
qed

subsection \<open>Steps that keep a state well-formed\<close>

lemma map_of_map_entry_eq:
  "map_of (AList.map_entry a g fl) b =
     (if b = a then map_option g (map_of fl a) else map_of fl b)"
  by (simp add: map_of_map_entry split: option.splits)

lemma desc_ok_map_entry:
  assumes "\<And>f. map_of fl a = Some f \<Longrightarrow> cur_ok (block_list f) d \<Longrightarrow> cur_ok (block_list (g f)) d"
    and "desc_ok fl d"
  shows "desc_ok (AList.map_entry a g fl) d"
  using assms by (auto simp: desc_ok_def map_of_map_entry_eq split: option.splits)

lemma desc_ok_Cons:
  "a \<notin> fst ` set fl \<Longrightarrow> desc_ok fl d \<Longrightarrow> desc_ok ((a, f) # fl) d"
  by (auto simp: desc_ok_def split: option.splits dest: map_of_SomeD intro: rev_image_eqI)

lemma desc_ok_live: "desc_ok fl d \<Longrightarrow> fileptr d \<in> fst ` set fl"
  by (auto simp: desc_ok_def split: option.splits dest: map_of_SomeD intro: rev_image_eqI)

lemma refs_to_fresh:
  assumes "\<And>i d. i < length t \<Longrightarrow> t ! i = Some d \<Longrightarrow> desc_ok fl d" "a \<notin> fst ` set fl"
  shows "refs_to a t = 0"
  unfolding refs_to_zero
proof (intro allI impI)
  fix i assume i: "i < length t"
  show "\<not> points_to a (t ! i)"
  proof (cases "t ! i")
    case None
    then show ?thesis by (simp add: points_to_def)
  next
    case (Some d)
    from desc_ok_live [OF assms(1) [OF i Some]] assms(2) have "fileptr d \<noteq> a" by auto
    with Some show ?thesis by (simp add: points_to_def)
  qed
qed

lemma ufs_inv_mkfile:
  assumes "ufs_inv s" "find filename (file_list s) = None"
  shows "ufs_inv (s\<lparr>file_list :=
            (new_address (file_list s),
             \<lparr>block_list = [new_data_cell], refs = 0, name = filename, is_removed = False\<rparr>)
            # file_list s\<rparr>)"
proof -
  let ?a = "new_address (file_list s)"
  have fresh: "?a \<notin> fst ` set (file_list s)" by (rule new_address_fresh)
  from assms(1) have d: "\<And>i d. i < length (table s) \<Longrightarrow> table s ! i = Some d \<Longrightarrow> desc_ok (file_list s) d"
    by (simp add: ufs_inv_iff)
  have r: "refs_to ?a (table s) = 0" by (rule refs_to_fresh [OF d fresh])
  have c: "chain_ok [new_data_cell]" by (simp add: chain_ok_def)
  from assms fresh r c d show ?thesis
    by (auto simp: ufs_inv_iff find_None intro: desc_ok_Cons)
qed

lemma drop_None_iff:
  "list_all (\<lambda>x. x = None) (drop n t) \<longleftrightarrow> (\<forall>j. n \<le> j \<and> j < length t \<longrightarrow> t ! j = None)"
proof
  assume l: "list_all (\<lambda>x. x = None) (drop n t)"
  show "\<forall>j. n \<le> j \<and> j < length t \<longrightarrow> t ! j = None"
  proof (intro allI impI)
    fix j assume "n \<le> j \<and> j < length t"
    then have j: "n \<le> j" "j < length t" by simp_all
    then have "j - n < length (drop n t)" by simp
    with l have "drop n t ! (j - n) = None" by (simp add: list_all_length)
    with j show "t ! j = None" by simp
  qed
next
  assume "\<forall>j. n \<le> j \<and> j < length t \<longrightarrow> t ! j = None"
  then show "list_all (\<lambda>x. x = None) (drop n t)"
    by (simp add: list_all_length)
qed

lemma table_ok_iff:
  "table_ok s \<longleftrightarrow>
     (case file_descriptors s of
        None \<Rightarrow> file_descriptor_count s = 0 \<and> file_descriptor_capacity s = 0
      | Some t \<Rightarrow>
          length t = file_descriptor_capacity s \<and> 0 < file_descriptor_capacity s \<and>
          file_descriptor_count s \<le> file_descriptor_capacity s \<and>
          (\<forall>j. file_descriptor_count s \<le> j \<and> j < length t \<longrightarrow> t ! j = None))"
  by (simp add: table_ok_def drop_None_iff cong: option.case_cong)

lemma ufs_inv_install:
  assumes inv: "ufs_inv s" and t: "file_descriptors s = Some t"
    and i: "i < length t" "t ! i = None" "i \<le> file_descriptor_count s"
    and a: "map_of (file_list s) a = Some f"
  shows "ufs_inv (s\<lparr>file_list := AList.map_entry a (\<lambda>f. f\<lparr>refs := refs f + 1\<rparr>) (file_list s),
                   file_descriptors :=
                     Some (t[i := Some \<lparr>fileptr = a, curr_data_segment = 0, flags = flgs, byte_pos = 0\<rparr>]),
                   file_descriptor_count :=
                     (if int i = int (file_descriptor_count s) then Suc (file_descriptor_count s)
                      else file_descriptor_count s)\<rparr>)"
    (is "ufs_inv ?s'")
proof -
  let ?d = "\<lparr>fileptr = a, curr_data_segment = 0, flags = flgs, byte_pos = 0\<rparr>"
  let ?g = "\<lambda>f. f\<lparr>refs := refs f + 1\<rparr>"
  let ?n = "file_descriptor_count s"
  from t have tab: "table s = t" by (simp add: table_def)
  from inv t have tok: "length t = file_descriptor_capacity s" "0 < file_descriptor_capacity s"
    "?n \<le> file_descriptor_capacity s" "\<And>j. ?n \<le> j \<Longrightarrow> j < length t \<Longrightarrow> t ! j = None"
    by (simp_all add: ufs_inv_iff table_ok_iff)
  from inv have dist: "distinct (map fst (file_list s))" "distinct (visible_names (file_list s))"
    and files: "\<And>b f. map_of (file_list s) b = Some f \<Longrightarrow>
        chain_ok (block_list f) \<and> refs f = int (refs_to b (table s))"
    and descs: "\<And>j d. j < length (table s) \<Longrightarrow> table s ! j = Some d \<Longrightarrow> desc_ok (file_list s) d"
    by (simp_all add: ufs_inv_iff)
  have 1: "table_ok ?s'"
    using tok i by (auto simp: table_ok_iff nth_list_update)
  have 2: "distinct (map fst (file_list ?s'))" "distinct (visible_names (file_list ?s'))"
    using dist by (simp_all add: visible_names_map_entry)
  have r: "int (refs_to b (t[i := Some ?d])) = int (refs_to b t) + (if b = a then 1 else 0)" for b
    using refs_to_update [OF i(1), of b "Some ?d"] i(2) by (simp add: points_to_def)
  have 3: "chain_ok (block_list f') \<and> refs f' = int (refs_to b (table ?s'))"
    if "map_of (file_list ?s') b = Some f'" for b f'
    using that files [of b] r [of b] tab
    by (auto simp: map_of_map_entry_eq split: if_splits)
  have 4: "desc_ok (file_list ?s') d" if "j < length (table ?s')" "table ?s' ! j = Some d" for j d
  proof (cases "j = i")
    case True
    with that i have "d = ?d" by simp
    moreover from files [OF a] have "block_list f \<noteq> []" by (simp add: chain_ok_def)
    ultimately show ?thesis
      using a by (simp add: desc_ok_def map_of_map_entry_eq cur_ok_def)
  next
    case False
    with that tab have "desc_ok (file_list s) d" by (simp add: descs)
    then show ?thesis
      by (auto intro: desc_ok_map_entry)
  qed
  from 1 2 3 4 show ?thesis
    unfolding ufs_inv_iff by blast
qed

lemma ufs_inv_retable:
  assumes inv: "ufs_inv s"
    and r: "\<And>a. refs_to a t' = refs_to a (table s)"
    and d: "\<And>j d. j < length t' \<Longrightarrow> t' ! j = Some d \<Longrightarrow> \<exists>k<length (table s). table s ! k = Some d"
    and tok: "table_ok (s\<lparr>file_descriptors := Some t', file_descriptor_count := n,
                          file_descriptor_capacity := c\<rparr>)"
  shows "ufs_inv (s\<lparr>file_descriptors := Some t', file_descriptor_count := n,
                    file_descriptor_capacity := c\<rparr>)"
  unfolding ufs_inv_iff
proof (intro conjI allI impI)
  show "table_ok (s\<lparr>file_descriptors := Some t', file_descriptor_count := n,
                     file_descriptor_capacity := c\<rparr>)"
    by (rule tok)
next
  fix j d'
  assume "j < length (table (s\<lparr>file_descriptors := Some t', file_descriptor_count := n,
                                 file_descriptor_capacity := c\<rparr>))"
    and "table (s\<lparr>file_descriptors := Some t', file_descriptor_count := n,
                   file_descriptor_capacity := c\<rparr>) ! j = Some d'"
  then have "j < length t'" "t' ! j = Some d'" by (simp_all add: table_def)
  from d [OF this] inv
  show "desc_ok (file_list (s\<lparr>file_descriptors := Some t', file_descriptor_count := n,
                               file_descriptor_capacity := c\<rparr>)) d'"
    by (auto simp: ufs_inv_iff)
qed (use inv r in \<open>simp_all add: ufs_inv_iff table_def\<close>)

lemma ufs_inv_fd_setup:
  assumes "ufs_inv s" "file_descriptors s = None"
  shows "ufs_inv (snd (fd_setup s))"
proof (cases "fst (alloc (alloc_plan s))")
  case False
  with assms show ?thesis
    by (auto simp: fd_setup_def ufs_inv_def table_ok_def table_def split: prod.splits cong: option.case_cong)
next
  case True
  from assms have t: "table s = []" by (simp add: table_def)
  have "ufs_inv (s\<lparr>file_descriptors := Some (replicate DESCRIPTOR_POOL_START_SIZE None),
                   file_descriptor_count := 0,
                   file_descriptor_capacity := DESCRIPTOR_POOL_START_SIZE\<rparr>)"
    using assms(1)
    by (rule ufs_inv_retable)
      (simp_all add: t table_ok_iff DESCRIPTOR_POOL_START_SIZE_def)
  with True show ?thesis
    by (auto simp: fd_setup_def split: prod.splits)
qed

lemma ufs_inv_adjust:
  assumes "ufs_inv s"
  shows "ufs_inv (snd (adjust_container_capacity s))"
proof (cases "file_descriptors s")
  case None
  with assms have "file_descriptor_count s = 0" "file_descriptor_capacity s = 0"
    by (simp_all add: ufs_inv_iff table_ok_iff)
  with assms show ?thesis
    by (simp add: adjust_container_capacity_def CAPACITY_MULTIPLIER_def)
next
  case (Some t)
  let ?n = "file_descriptor_count s" and ?c = "file_descriptor_capacity s"
  from Some have tab: "table s = t" by (simp add: table_def)
  from assms Some have tok: "length t = ?c" "0 < ?c" "?n \<le> ?c"
    "\<And>j. ?n \<le> j \<Longrightarrow> j < length t \<Longrightarrow> t ! j = None"
    by (simp_all add: ufs_inv_iff table_ok_iff)
  have grow: "ufs_inv (s\<lparr>file_descriptors := Some (t @ replicate (k - ?c) None),
                          file_descriptor_count := ?n, file_descriptor_capacity := k\<rparr>)"
    if "?c < k" for k
    using assms
  proof (rule ufs_inv_retable)
    show "table_ok (s\<lparr>file_descriptors := Some (t @ replicate (k - ?c) None),
                      file_descriptor_count := ?n, file_descriptor_capacity := k\<rparr>)"
      using tok that by (auto simp: table_ok_iff nth_append)
    show "\<exists>m<length (table s). table s ! m = Some d"
      if "j < length (t @ replicate (k - ?c) None)" "(t @ replicate (k - ?c) None) ! j = Some d" for j d
      using that tab by (cases "j < length t") (auto simp: nth_append)
  qed (simp add: tab)
  have shrink: "ufs_inv (s\<lparr>file_descriptors := Some (take k t),
                            file_descriptor_count := ?n, file_descriptor_capacity := k\<rparr>)"
    if "?n < k" "k \<le> ?c" for k
    using assms
  proof (rule ufs_inv_retable)
    show "table_ok (s\<lparr>file_descriptors := Some (take k t),
                      file_descriptor_count := ?n, file_descriptor_capacity := k\<rparr>)"
      using tok that by (auto simp: table_ok_iff)
    show "\<exists>m<length (table s). table s ! m = Some d"
      if "j < length (take k t)" "take k t ! j = Some d" for j d
      using that tab by auto
    have "list_all (\<lambda>x. x = None) (drop k t)"
      using tok(4) that by (simp add: drop_None_iff)
    then show "refs_to a (take k t) = refs_to a (table s)" for a
      by (simp add: refs_to_take tab)
  qed
  have same: "s\<lparr>file_descriptors := Some u, file_descriptor_count := ?n, file_descriptor_capacity := k\<rparr> =
     s\<lparr>file_descriptors := Some u, file_descriptor_capacity := k\<rparr>" for u k
    by simp
  show ?thesis
    using assms grow [of "?c * 2"] shrink [of "?c div 2"] tok
    by (auto simp: adjust_container_capacity_def Let_def CAPACITY_MULTIPLIER_def same tab
        split: prod.splits bool.splits)
qed

lemma adjust_full:
  assumes "file_descriptors s = Some t" "file_descriptor_count s = file_descriptor_capacity s"
    "0 < file_descriptor_capacity s" "alloc_plan s = []"
  shows "adjust_container_capacity s =
         (UFS_ERR_NO_ERR,
          s\<lparr>file_descriptors := Some (t @ replicate (file_descriptor_capacity s) None),
            file_descriptor_capacity := file_descriptor_capacity s * 2, alloc_plan := []\<rparr>)"
  using assms by (simp add: adjust_container_capacity_def Let_def CAPACITY_MULTIPLIER_def table_def)

subsection \<open>ufs_open when no allocation fails\<close>

lemma mkfile_Nil:
  "alloc_plan s = [] \<Longrightarrow>
   mkfile filename s =
     (Some (new_address (file_list s)),
      s\<lparr>file_list := (new_address (file_list s), empty_file filename) # file_list s,
        alloc_plan := []\<rparr>)"
  by (simp add: mkfile_def empty_file_def)

lemma fd_setup_Nil:
  "alloc_plan s = [] \<Longrightarrow>
   fd_setup s =
     (UFS_ERR_NO_ERR,
      s\<lparr>file_descriptors := Some (replicate DESCRIPTOR_POOL_START_SIZE None),
        file_descriptor_count := 0, file_descriptor_capacity := DESCRIPTOR_POOL_START_SIZE,
        alloc_plan := []\<rparr>)"
  by (simp add: fd_setup_def)

lemma create_descriptor_Nil:
  "alloc_plan s = [] \<Longrightarrow>
   create_descriptor (Some a) flgs s =
     (Some \<lparr>fileptr = a, curr_data_segment = 0, flags = flgs, byte_pos = 0\<rparr>,
      s\<lparr>ufs_error_code := UFS_ERR_NO_ERR, alloc_plan := []\<rparr>)"
  by (simp add: create_descriptor_def)

lemma slot_replicate_None [simp]: "slot (replicate n None) i = None"
  by (simp add: slot_def)

lemma slot_Nil [simp]: "slot [] i = None"
  by (simp add: slot_def)

lemma free_index_cong: "(\<And>i. slot t i = slot u i) \<Longrightarrow> free_index t = free_index u"
  by (rule free_index_unique) (auto simp: free_index_free free_index_least)

text \<open>The state in which ufs_open looks for the file: the table exists.\<close>

lemma open_setup:
  assumes "ufs_inv s" "alloc_plan s = []"
  obtains s1 t1 where
    "(if file_descriptors s = None
      then (case fd_setup s of (err, s') \<Rightarrow> (err, s'\<lparr>ufs_error_code := err\<rparr>))
      else (UFS_ERR_NO_ERR, s)) = (UFS_ERR_NO_ERR, s1)"
    "ufs_inv s1" "alloc_plan s1 = []" "file_descriptors s1 = Some t1"
    "file_list s1 = file_list s" "\<And>i. slot t1 i = slot (table s) i"
    "length t1 =
       (if file_descriptors s = None then DESCRIPTOR_POOL_START_SIZE else length (table s))"
proof (cases "file_descriptors s")
  case None
  let ?s1 = "s\<lparr>file_descriptors := Some (replicate DESCRIPTOR_POOL_START_SIZE None),
        file_descriptor_count := 0, file_descriptor_capacity := DESCRIPTOR_POOL_START_SIZE,
        alloc_plan := [], ufs_error_code := UFS_ERR_NO_ERR\<rparr>"
  from ufs_inv_fd_setup [OF assms(1) None] have "ufs_inv ?s1"
    by (simp add: fd_setup_Nil [OF assms(2)])
  with None assms(2) show ?thesis
    by (intro that [of ?s1 "replicate DESCRIPTOR_POOL_START_SIZE None"])
      (simp_all add: fd_setup_Nil table_def)
next
  case (Some t)
  with assms show ?thesis
    by (intro that [of s t]) (simp_all add: table_def)
qed

text \<open>The slot ufs_open picks: smallest_fd and the scan after it.\<close>

lemma open_slot:
  assumes inv: "ufs_inv s" and plan: "alloc_plan s = []" and t: "file_descriptors s = Some t"
  obtains fd0 s3 t3 where
    "smallest_fd s = (fd0, s3)"
    "(case first_null (take (file_descriptor_capacity s3) (table s3)) of
        Some i \<Rightarrow> (UFS_ERR_NO_ERR, int i, s3)
      | None \<Rightarrow>
          if fd0 = - 1 then
            (case adjust_container_capacity s3 of
               (err, s4) \<Rightarrow> (err, int (file_descriptor_count s4), s4))
          else (UFS_ERR_NO_ERR, fd0, s3)) = (UFS_ERR_NO_ERR, int (free_index t), s3)"
    "ufs_inv s3" "alloc_plan s3 = []" "file_descriptors s3 = Some t3"
    "file_list s3 = file_list s" "file_descriptor_count s3 = file_descriptor_count s"
    "free_index t < length t3" "t3 ! free_index t = None" "free_index t \<le> file_descriptor_count s"
    "\<And>i. slot t3 i = slot t i"
    "length t3 = (if free_index t < length t then length t else 2 * length t)"
proof -
  let ?n = "file_descriptor_count s" and ?c = "file_descriptor_capacity s"
  from inv t have tok: "length t = ?c" "0 < ?c" "?n \<le> ?c"
    "list_all (\<lambda>x. x = None) (drop ?n t)"
    by (simp_all add: ufs_inv_iff table_ok_def)
  have le: "free_index t \<le> ?n"
    using tok by (intro free_index_le_count) simp_all
  show ?thesis
  proof (cases "first_null t")
    case (Some i)
    then have i: "free_index t = i" "i < length t" "t ! i = None"
      using first_null_Some [OF Some] by (simp_all add: free_index_def)
    from Some t tok(1) have "smallest_fd s = (int i, s)"
      by (simp add: smallest_fd_def)
    with Some t tok(1) i le inv plan show ?thesis
      by (intro that [of "int i" s t]) (simp_all add: table_def)
  next
    case None
    then have fi: "free_index t = length t" by (simp add: free_index_def)
    with le tok have full: "?n = ?c" by simp
    let ?t3 = "t @ replicate ?c None"
    let ?s3 = "s\<lparr>file_descriptors := Some ?t3, file_descriptor_capacity := ?c * 2,
                 alloc_plan := [], ufs_error_code := UFS_ERR_NO_ERR\<rparr>"
    have adj: "adjust_container_capacity s =
        (UFS_ERR_NO_ERR, s\<lparr>file_descriptors := Some ?t3, file_descriptor_capacity := ?c * 2,
                           alloc_plan := []\<rparr>)"
      by (rule adjust_full [OF t full tok(2) plan])
    have sm: "smallest_fd s = (int ?n, ?s3)"
      using None t tok(1) full by (simp add: smallest_fd_def adj)
    from ufs_inv_adjust [OF inv] have inv3: "ufs_inv ?s3"
      by (simp add: adj)
    have fn: "first_null ?t3 = Some (length t)"
      by (rule first_null_grown [OF None tok(2)])
    have sl: "slot ?t3 i = slot t i" for i
      by (simp add: slot_def nth_append)
    from sm fn fi tok(1,2) full inv3 sl show ?thesis
      by (intro that [of "int ?n" ?s3 ?t3]) (simp_all add: nth_append)
  qed
qed

lemma ufs_inv_mkfile':
  "ufs_inv s \<Longrightarrow> find filename (file_list s) = None \<Longrightarrow>
   ufs_inv (s\<lparr>file_list := (new_address (file_list s), empty_file filename) # file_list s\<rparr>)"
  unfolding empty_file_def by (rule ufs_inv_mkfile)

lemma slot_update: "slot (t[j := x]) i = (if i = j \<and> j < length t then x else slot t i)"
  by (simp add: slot_def)

lemma ufs_open_ok:
  assumes inv: "ufs_inv s" and plan: "alloc_plan s = []"
    and ex: "find filename (file_list s) \<noteq> None \<or> flgs AND UFS_CREATE \<noteq> 0"
  obtains s' where
    "ufs_open filename flgs s = (int (free_index (table s)), s')"
    "ufs_inv s'" "alloc_plan s' = []" "ufs_error_code s' = UFS_ERR_NO_ERR"
    "file_list s' =
       AList.map_entry (open_target filename (file_list s)) (\<lambda>f. f\<lparr>refs := refs f + 1\<rparr>)
         (open_files filename (file_list s))"
    "slot (table s') (free_index (table s)) =
       Some \<lparr>fileptr = open_target filename (file_list s), curr_data_segment = 0,
             flags = flgs, byte_pos = 0\<rparr>"
    "\<And>i. i \<noteq> free_index (table s) \<Longrightarrow> slot (table s') i = slot (table s) i"
    "free_index (table s) < file_descriptor_count s'"
    "length (table s') =
       (if file_descriptors s = None then DESCRIPTOR_POOL_START_SIZE
        else if free_index (table s) < length (table s) then length (table s)
        else 2 * length (table s))"
proof -
  let ?a = "open_target filename (file_list s)" and ?fl = "open_files filename (file_list s)"
  from open_setup [OF inv plan] obtain s1 t1 where
    e1: "(if file_descriptors s = None
          then (case fd_setup s of (err, s') \<Rightarrow> (err, s'\<lparr>ufs_error_code := err\<rparr>))
          else (UFS_ERR_NO_ERR, s)) = (UFS_ERR_NO_ERR, s1)"
    and s1: "ufs_inv s1" "alloc_plan s1 = []" "file_descriptors s1 = Some t1"
      "file_list s1 = file_list s" "\<And>i. slot t1 i = slot (table s) i"
    and len1: "length t1 =
       (if file_descriptors s = None then DESCRIPTOR_POOL_START_SIZE else length (table s))"
    by blast
  define s2 where "s2 = s1\<lparr>file_list := ?fl, alloc_plan := []\<rparr>"
  have e2: "(case find filename (file_list s1) of
               None \<Rightarrow> mkfile filename s1
             | Some (a, f) \<Rightarrow> (Some a, s1)) = (Some ?a, s2)"
    using s1(2,4)
    by (cases "find filename (file_list s)")
      (auto simp: s2_def open_target_def open_files_def mkfile_Nil)
  have same1: "s1\<lparr>file_list := file_list s\<rparr> = s1"
    by (simp add: s1(4) [symmetric])
  have inv2: "ufs_inv s2"
    using s1(1,4) ufs_inv_mkfile' [of s1 filename]
    by (cases "find filename (file_list s)") (auto simp: s2_def open_files_def same1)
  have s2: "alloc_plan s2 = []" "file_descriptors s2 = Some t1" "file_list s2 = ?fl"
    by (simp_all add: s2_def s1)
  have "\<exists>f. map_of ?fl ?a = Some f"
  proof (cases "find filename (file_list s)")
    case None
    then show ?thesis by (simp add: open_target_def open_files_def)
  next
    case (Some af)
    obtain a f where af: "af = (a, f)" by (cases af)
    from inv have "distinct (map fst (file_list s))" by (simp add: ufs_inv_iff)
    from find_map_of [OF this Some [unfolded af]] Some af show ?thesis
      by (simp add: open_target_def open_files_def)
  qed
  then obtain f where f: "map_of (file_list s2) ?a = Some f"
    using s2(3) by auto
  from open_slot [OF inv2 s2(1,2)] obtain fd0 s3 t3 where
    e3: "smallest_fd s2 = (fd0, s3)"
    and e4: "(case first_null (take (file_descriptor_capacity s3) (table s3)) of
        Some i \<Rightarrow> (UFS_ERR_NO_ERR, int i, s3)
      | None \<Rightarrow>
          if fd0 = - 1 then
            (case adjust_container_capacity s3 of
               (err, s4) \<Rightarrow> (err, int (file_descriptor_count s4), s4))
          else (UFS_ERR_NO_ERR, fd0, s3)) = (UFS_ERR_NO_ERR, int (free_index t1), s3)"
    and s3: "ufs_inv s3" "alloc_plan s3 = []" "file_descriptors s3 = Some t3"
      "file_list s3 = file_list s2" "file_descriptor_count s3 = file_descriptor_count s2"
      "free_index t1 < length t3" "t3 ! free_index t1 = None"
      "free_index t1 \<le> file_descriptor_count s2" "\<And>i. slot t3 i = slot t1 i"
    and len3: "length t3 = (if free_index t1 < length t1 then length t1 else 2 * length t1)"
    by blast
  have fi: "free_index t1 = free_index (table s)"
    by (rule free_index_cong) (rule s1(5))
  let ?i = "free_index (table s)"
  let ?d = "\<lparr>fileptr = ?a, curr_data_segment = 0, flags = flgs, byte_pos = 0\<rparr>"
  define s' where "s' = s3\<lparr>file_list := AList.map_entry ?a (\<lambda>f. f\<lparr>refs := refs f + 1\<rparr>) (file_list s3),
       file_descriptors := Some (t3[?i := Some ?d]),
       file_descriptor_count :=
         (if int ?i = int (file_descriptor_count s3) then Suc (file_descriptor_count s3)
          else file_descriptor_count s3),
       ufs_error_code := UFS_ERR_NO_ERR\<rparr>"
  have inv': "ufs_inv s'"
    unfolding s'_def ufs_inv_simps
    using s3(1,3) s3(6,7) [unfolded fi] _ f [folded s3(4)]
    by (rule ufs_inv_install) (use s3(5,8) fi in simp)
  have ex': "\<not> (find filename (file_list s1) = None \<and> flgs AND UFS_CREATE = 0)"
    using ex s1(4) by auto
  have t3: "table s3 = t3" using s3(3) by (simp add: table_def)
  have op: "ufs_open filename flgs s = (int ?i, s')"
    unfolding ufs_open_def e1
    apply (simp only: e2 e3 e4 ex' prod.case option.case if_False if_True simp_thms
        create_descriptor_Nil [OF s3(2)])
    apply (simp add: t3 s'_def s3(2) fi)
    done
  have 5: "file_list s' = AList.map_entry ?a (\<lambda>f. f\<lparr>refs := refs f + 1\<rparr>) ?fl"
    by (simp add: s'_def s3(4) s2(3))
  have 6: "slot (table s') ?i = Some ?d"
    using s3(6) fi by (simp add: s'_def)
  have 7: "slot (table s') i = slot (table s) i" if "i \<noteq> ?i" for i
    using that s3(9) [of i] s1(5) [of i] by (simp add: s'_def slot_update)
  have 8: "?i < file_descriptor_count s'"
    using s3(8) fi s3(5) by (simp add: s'_def)
  have 9: "length (table s') =
       (if file_descriptors s = None then DESCRIPTOR_POOL_START_SIZE
        else if free_index (table s) < length (table s) then length (table s)
        else 2 * length (table s))"
  proof (cases "file_descriptors s")
    case None
    then have "table s = []" by (simp add: table_def)
    with None len1 len3 fi show ?thesis
      by (simp add: s'_def DESCRIPTOR_POOL_START_SIZE_def free_index_def)
  next
    case (Some t)
    with len1 len3 fi show ?thesis by (simp add: s'_def)
  qed
  from op inv' 5 6 7 8 9 show ?thesis
    by (intro that [of s']) (simp_all add: s'_def s3(2))
qed

subsection \<open>ufs_open in general\<close>

lemma alloc_cases:
  obtains (ok) rest where "alloc plan = (True, rest)" | (fail) rest where "alloc plan = (False, rest)"
  by (cases "alloc plan") (metis (full_types))

lemma adjust_full_gen:
  assumes "file_descriptors s = Some t" "file_descriptor_count s = file_descriptor_capacity s"
    "0 < file_descriptor_capacity s"
  shows "adjust_container_capacity s =
     (case alloc (alloc_plan s) of
        (False, plan1) \<Rightarrow> (UFS_ERR_NO_MEM, s\<lparr>alloc_plan := plan1\<rparr>)
      | (True, plan1) \<Rightarrow>
          (UFS_ERR_NO_ERR,
           s\<lparr>file_descriptors := Some (t @ replicate (file_descriptor_capacity s) None),
             file_descriptor_capacity := file_descriptor_capacity s * 2, alloc_plan := plan1\<rparr>))"
  using assms
  by (simp add: adjust_container_capacity_def Let_def CAPACITY_MULTIPLIER_def table_def
      split: prod.splits bool.splits)

lemma open_setup_gen:
  assumes "ufs_inv s"
  obtains err0 s1 where
    "(if file_descriptors s = None
      then (case fd_setup s of (err, s') \<Rightarrow> (err, s'\<lparr>ufs_error_code := err\<rparr>))
      else (UFS_ERR_NO_ERR, s)) = (err0, s1)"
    "ufs_inv s1" "file_list s1 = file_list s" "\<And>i. slot (table s1) i = slot (table s) i"
    "err0 = UFS_ERR_NO_ERR \<Longrightarrow> file_descriptors s1 \<noteq> None"
proof (cases "file_descriptors s")
  case (Some t)
  with assms show ?thesis
    by (intro that [of UFS_ERR_NO_ERR s]) simp_all
next
  case None
  obtain err s' where fs: "fd_setup s = (err, s')" by (cases "fd_setup s")
  from ufs_inv_fd_setup [OF assms None] fs have inv: "ufs_inv s'" by simp
  from fs None have "file_list s' = file_list s" "\<And>i. slot (table s') i = slot (table s) i"
    "err = UFS_ERR_NO_ERR \<Longrightarrow> file_descriptors s' \<noteq> None"
    by (auto simp: fd_setup_def table_def split: prod.splits bool.splits)
  with None fs inv show ?thesis
    by (intro that [of err "s'\<lparr>ufs_error_code := err\<rparr>"]) simp_all
qed

lemma open_target_gen:
  assumes "ufs_inv s"
  obtains target s2 where
    "(case find filename (file_list s) of
        None \<Rightarrow> mkfile filename s
      | Some (a, f) \<Rightarrow> (Some a, s)) = (target, s2)"
    "ufs_inv s2" "table s2 = table s" "file_descriptors s2 = file_descriptors s"
    "target \<noteq> None \<Longrightarrow>
       target = Some (open_target filename (file_list s)) \<and>
       file_list s2 = open_files filename (file_list s) \<and>
       (\<exists>f. map_of (file_list s2) (open_target filename (file_list s)) = Some f)"
proof (cases "find filename (file_list s)")
  case (Some af)
  obtain a f where af: "af = (a, f)" by (cases af)
  from assms have "distinct (map fst (file_list s))" by (simp add: ufs_inv_iff)
  from find_map_of [OF this Some [unfolded af]] Some af assms show ?thesis
    by (intro that [of "Some a" s]) (simp_all add: open_target_def open_files_def)
next
  case None
  obtain target s2 where mk: "mkfile filename s = (target, s2)" by (cases "mkfile filename s")
  show ?thesis
  proof (cases target)
    case n: None
    with mk have "\<exists>p. s2 = s\<lparr>alloc_plan := p\<rparr>"
      by (auto simp: mkfile_def expand_storage_unit_def split: prod.splits bool.splits if_splits)
    with assms None mk n show ?thesis
      by (intro that [of None s2]) auto
  next
    case (Some a)
    with mk have "\<exists>p. s2 = s\<lparr>file_list := (new_address (file_list s), empty_file filename) # file_list s,
         alloc_plan := p\<rparr> \<and> a = new_address (file_list s)"
      by (auto simp: mkfile_def expand_storage_unit_def empty_file_def
          split: prod.splits bool.splits if_splits)
    then obtain p where s2: "s2 = s\<lparr>file_list := (new_address (file_list s), empty_file filename) # file_list s,
         alloc_plan := p\<rparr>" and a: "a = new_address (file_list s)" by blast
    from ufs_inv_mkfile' [OF assms None] have "ufs_inv s2" by (simp add: s2)
    with None mk Some a show ?thesis
      by (intro that [of "Some a" s2]) (simp_all add: s2 open_target_def open_files_def)
  qed
qed

lemma open_slot_gen:
  assumes inv: "ufs_inv s" and t: "file_descriptors s = Some t"
  obtains fd0 s3 err1 free_fd s4 where
    "smallest_fd s = (fd0, s3)"
    "(case first_null (take (file_descriptor_capacity s3) (table s3)) of
        Some i \<Rightarrow> (UFS_ERR_NO_ERR, int i, s3)
      | None \<Rightarrow>
          if fd0 = - 1 then
            (case adjust_container_capacity s3 of
               (err, s4) \<Rightarrow> (err, int (file_descriptor_count s4), s4))
          else (UFS_ERR_NO_ERR, fd0, s3)) = (err1, free_fd, s4)"
    "ufs_inv s4" "file_list s4 = file_list s"
    "err1 \<noteq> UFS_ERR_NO_ERR \<Longrightarrow> (\<forall>i. slot (table s4) i = slot t i)"
    "err1 = UFS_ERR_NO_ERR \<Longrightarrow>
       free_fd = int (free_index t) \<and> free_index t < length (table s4) \<and>
       file_descriptors s4 = Some (table s4) \<and>
       table s4 ! free_index t = None \<and> free_index t \<le> file_descriptor_count s4 \<and>
       (\<forall>i. slot (table s4) i = slot t i)"
proof -
  let ?n = "file_descriptor_count s" and ?c = "file_descriptor_capacity s"
  from inv t have tok: "length t = ?c" "0 < ?c" "?n \<le> ?c"
    "list_all (\<lambda>x. x = None) (drop ?n t)"
    by (simp_all add: ufs_inv_iff table_ok_def)
  have le: "free_index t \<le> ?n"
    using tok by (intro free_index_le_count) simp_all
  have tab: "table s = t" using t by (simp add: table_def)
  show ?thesis
  proof (cases "first_null t")
    case (Some i)
    then have i: "free_index t = i" "i < length t" "t ! i = None"
      using first_null_Some [OF Some] by (simp_all add: free_index_def)
    from Some t tok(1) have "smallest_fd s = (int i, s)"
      by (simp add: smallest_fd_def)
    with Some t tok(1) i le inv tab show ?thesis
      by (intro that [of "int i" s UFS_ERR_NO_ERR "int i" s]) simp_all
  next
    case None
    then have fi: "free_index t = length t" by (simp add: free_index_def)
    with le tok have full: "?n = ?c" by simp
    let ?t3 = "t @ replicate ?c None"
    have fn: "first_null ?t3 = Some (length t)"
      by (rule first_null_grown [OF None tok(2)])
    have sl: "slot ?t3 i = slot t i" for i
      by (simp add: slot_def nth_append)
    note adj = adjust_full_gen [OF t full tok(2)]
    show ?thesis
    proof (cases rule: alloc_cases [of "alloc_plan s"])
      case (ok rest)
      let ?s3 = "s\<lparr>file_descriptors := Some ?t3, file_descriptor_capacity := ?c * 2,
                   alloc_plan := rest, ufs_error_code := UFS_ERR_NO_ERR\<rparr>"
      have a: "adjust_container_capacity s =
          (UFS_ERR_NO_ERR, s\<lparr>file_descriptors := Some ?t3, file_descriptor_capacity := ?c * 2,
                             alloc_plan := rest\<rparr>)"
        by (simp add: adj ok)
      have sm: "smallest_fd s = (int ?n, ?s3)"
        using None t tok(1) full by (simp add: smallest_fd_def a)
      from ufs_inv_adjust [OF inv] have inv3: "ufs_inv ?s3"
        by (simp add: a)
      from sm fn fi tok(1,2) full inv3 sl show ?thesis
        by (intro that [of "int ?n" ?s3 UFS_ERR_NO_ERR "int ?n" ?s3]) (simp_all add: nth_append)
    next
      case (fail rest)
      let ?s3 = "s\<lparr>alloc_plan := rest, ufs_error_code := UFS_ERR_NO_MEM\<rparr>"
      have a: "adjust_container_capacity s = (UFS_ERR_NO_MEM, s\<lparr>alloc_plan := rest\<rparr>)"
        by (simp add: adj fail)
      have sm: "smallest_fd s = (- 1, ?s3)"
        using None t tok(1) full by (simp add: smallest_fd_def a)
      have inv3: "ufs_inv ?s3" using inv by simp
      have t3: "file_descriptors ?s3 = Some t" "file_descriptor_count ?s3 = file_descriptor_capacity ?s3"
        "0 < file_descriptor_capacity ?s3"
        using t full tok(2) by simp_all
      note adj3 = adjust_full_gen [OF t3]
      have scan: "first_null (take (file_descriptor_capacity ?s3) (table ?s3)) = None"
        using None tok(1) tab by simp
      show ?thesis
      proof (cases rule: alloc_cases [of rest])
        case (ok rest')
        let ?s4 = "s\<lparr>file_descriptors := Some ?t3, file_descriptor_capacity := ?c * 2,
                     alloc_plan := rest', ufs_error_code := UFS_ERR_NO_MEM\<rparr>"
        have a3: "adjust_container_capacity ?s3 = (UFS_ERR_NO_ERR, ?s4)"
          by (simp add: adj3 ok)
        from ufs_inv_adjust [OF inv3] have inv4: "ufs_inv ?s4"
          by (simp add: a3)
        have e: "(case first_null (take (file_descriptor_capacity ?s3) (table ?s3)) of
            Some i \<Rightarrow> (UFS_ERR_NO_ERR, int i, ?s3)
          | None \<Rightarrow>
              if (- 1 :: int) = - 1 then
                (case adjust_container_capacity ?s3 of
                   (err, s4) \<Rightarrow> (err, int (file_descriptor_count s4), s4))
              else (UFS_ERR_NO_ERR, - 1, ?s3)) = (UFS_ERR_NO_ERR, int ?n, ?s4)"
          apply (simp only: scan a3 option.case prod.case if_True simp_thms)
          apply simp
          done
        have free: "?t3 ! length t = None"
          using tok(1,2) by (simp add: nth_append)
        from fi tok(1,2) full have "free_index t < length (table ?s4)"
          "free_index t \<le> file_descriptor_count ?s4" "int ?n = int (free_index t)"
          by simp_all
        with sm e inv4 sl free fi show ?thesis
          by (intro that [of "- 1" ?s3 UFS_ERR_NO_ERR "int ?n" ?s4]) simp_all
      next
        case (fail rest')
        let ?s4 = "s\<lparr>alloc_plan := rest', ufs_error_code := UFS_ERR_NO_MEM\<rparr>"
        have a3: "adjust_container_capacity ?s3 = (UFS_ERR_NO_MEM, ?s4)"
          by (simp add: adj3 fail)
        have e: "(case first_null (take (file_descriptor_capacity ?s3) (table ?s3)) of
            Some i \<Rightarrow> (UFS_ERR_NO_ERR, int i, ?s3)
          | None \<Rightarrow>
              if (- 1 :: int) = - 1 then
                (case adjust_container_capacity ?s3 of
                   (err, s4) \<Rightarrow> (err, int (file_descriptor_count s4), s4))
              else (UFS_ERR_NO_ERR, - 1, ?s3)) = (UFS_ERR_NO_MEM, int ?n, ?s4)"
          apply (simp only: scan a3 option.case prod.case if_True simp_thms)
          apply simp
          done
        from sm e inv tab show ?thesis
          by (intro that [of "- 1" ?s3 UFS_ERR_NO_MEM "int ?n" ?s4]) simp_all
      qed
    qed
  qed
qed

lemma create_descriptor_cases:
  obtains (ok) rest where
      "create_descriptor (Some a) flgs s =
         (Some \<lparr>fileptr = a, curr_data_segment = 0, flags = flgs, byte_pos = 0\<rparr>,
          s\<lparr>ufs_error_code := UFS_ERR_NO_ERR, alloc_plan := rest\<rparr>)"
    | (fail) rest where
      "create_descriptor (Some a) flgs s =
         (None, s\<lparr>ufs_error_code := UFS_ERR_NO_MEM, alloc_plan := rest\<rparr>)"
  by (cases rule: alloc_cases [of "alloc_plan s"]) (simp_all add: create_descriptor_def)

lemma ufs_open_cases:
  assumes inv: "ufs_inv s"
  obtains (fail) s' where
      "ufs_open filename flgs s = (- 1, s')" "ufs_inv s'"
      "\<And>i. slot (table s') i = slot (table s) i"
    | (ok) s' where
      "ufs_open filename flgs s = (int (free_index (table s)), s')"
      "ufs_inv s'" "ufs_error_code s' = UFS_ERR_NO_ERR"
      "file_list s' =
         AList.map_entry (open_target filename (file_list s)) (\<lambda>f. f\<lparr>refs := refs f + 1\<rparr>)
           (open_files filename (file_list s))"
      "slot (table s') (free_index (table s)) =
         Some \<lparr>fileptr = open_target filename (file_list s), curr_data_segment = 0,
               flags = flgs, byte_pos = 0\<rparr>"
      "\<And>i. i \<noteq> free_index (table s) \<Longrightarrow> slot (table s') i = slot (table s) i"
      "free_index (table s) < file_descriptor_count s'"
proof -
  note failed = fail and opened = ok
  let ?a = "open_target filename (file_list s)" and ?fl = "open_files filename (file_list s)"
  let ?i = "free_index (table s)"
  from open_setup_gen [OF inv] obtain err0 s1 where
    e1: "(if file_descriptors s = None
          then (case fd_setup s of (err, s') \<Rightarrow> (err, s'\<lparr>ufs_error_code := err\<rparr>))
          else (UFS_ERR_NO_ERR, s)) = (err0, s1)"
    and s1: "ufs_inv s1" "file_list s1 = file_list s" "\<And>i. slot (table s1) i = slot (table s) i"
      "err0 = UFS_ERR_NO_ERR \<Longrightarrow> file_descriptors s1 \<noteq> None"
    by blast
  show ?thesis
  proof (cases "err0 = UFS_ERR_NO_ERR")
    case False
    then have "ufs_open filename flgs s = (- 1, s1)"
      unfolding ufs_open_def e1 by (simp only: prod.case if_True simp_thms)
    then show ?thesis using s1 by (intro fail [of s1]) simp_all
  next
    case ok0: True
    with s1(4) obtain t1 where t1: "file_descriptors s1 = Some t1" by auto
    then have tab1: "table s1 = t1" by (simp add: table_def)
    show ?thesis
    proof (cases "find filename (file_list s1) = None \<and> flgs AND UFS_CREATE = 0")
      case True
      with ok0 have "ufs_open filename flgs s = (- 1, s1\<lparr>ufs_error_code := UFS_ERR_NO_FILE\<rparr>)"
        unfolding ufs_open_def e1 by (simp only: prod.case if_True if_False simp_thms)
      with s1 show ?thesis
        by (intro fail [of "s1\<lparr>ufs_error_code := UFS_ERR_NO_FILE\<rparr>"]) simp_all
    next
      case ex: False
      from open_target_gen [OF s1(1)] obtain target s2 where
        e2: "(case find filename (file_list s1) of
                None \<Rightarrow> mkfile filename s1
              | Some (a, f) \<Rightarrow> (Some a, s1)) = (target, s2)"
        and s2: "ufs_inv s2" "table s2 = table s1" "file_descriptors s2 = file_descriptors s1"
          "target \<noteq> None \<Longrightarrow>
             target = Some (open_target filename (file_list s1)) \<and>
             file_list s2 = open_files filename (file_list s1) \<and>
             (\<exists>f. map_of (file_list s2) (open_target filename (file_list s1)) = Some f)"
        by blast
      show ?thesis
      proof (cases target)
        case None
        with ok0 ex have "ufs_open filename flgs s = (- 1, s2\<lparr>ufs_error_code := UFS_ERR_NO_MEM\<rparr>)"
          unfolding ufs_open_def e1 by (simp only: e2 prod.case option.case if_False simp_thms)
        with s1 s2 show ?thesis
          by (intro fail [of "s2\<lparr>ufs_error_code := UFS_ERR_NO_MEM\<rparr>"]) simp_all
      next
        case (Some a')
        with s2(4) s1(2) obtain f where tg: "target = Some ?a" and fl2: "file_list s2 = ?fl"
          and f: "map_of (file_list s2) ?a = Some f"
          by auto
        from s2(3) t1 have t2: "file_descriptors s2 = Some t1" by simp
        from open_slot_gen [OF s2(1) t2] obtain fd0 s3 err1 free_fd s4 where
          e3: "smallest_fd s2 = (fd0, s3)"
          and e4: "(case first_null (take (file_descriptor_capacity s3) (table s3)) of
              Some i \<Rightarrow> (UFS_ERR_NO_ERR, int i, s3)
            | None \<Rightarrow>
                if fd0 = - 1 then
                  (case adjust_container_capacity s3 of
                     (err, s4) \<Rightarrow> (err, int (file_descriptor_count s4), s4))
                else (UFS_ERR_NO_ERR, fd0, s3)) = (err1, free_fd, s4)"
          and s4: "ufs_inv s4" "file_list s4 = file_list s2"
            "err1 \<noteq> UFS_ERR_NO_ERR \<Longrightarrow> (\<forall>i. slot (table s4) i = slot t1 i)"
            "err1 = UFS_ERR_NO_ERR \<Longrightarrow>
               free_fd = int (free_index t1) \<and> free_index t1 < length (table s4) \<and>
               file_descriptors s4 = Some (table s4) \<and>
               table s4 ! free_index t1 = None \<and> free_index t1 \<le> file_descriptor_count s4 \<and>
               (\<forall>i. slot (table s4) i = slot t1 i)"
          by blast
        have fi: "free_index t1 = ?i"
          by (rule free_index_cong) (use s1(3) tab1 in simp)
        show ?thesis
        proof (cases "err1 = UFS_ERR_NO_ERR")
          case False
          with ok0 ex have "ufs_open filename flgs s = (- 1, s4)"
            unfolding ufs_open_def e1
            by (simp only: e2 tg e3 e4 prod.case option.case if_False if_True simp_thms)
          then show ?thesis using s4(1) s4(3) [OF False] s1(3) tab1
            by (intro fail [of s4]) simp_all
        next
          case ok1: True
          from s4(4) [OF ok1] fi have a4: "free_fd = int ?i" "?i < length (table s4)"
            "file_descriptors s4 = Some (table s4)" "table s4 ! ?i = None"
            "?i \<le> file_descriptor_count s4" "\<And>i. slot (table s4) i = slot t1 i"
            by simp_all
          show ?thesis
          proof (cases rule: create_descriptor_cases [of ?a flgs s4])
            case (fail rest)
            with ok0 ex ok1 have "ufs_open filename flgs s =
                (- 1, s4\<lparr>ufs_error_code := UFS_ERR_NO_MEM, alloc_plan := rest,
                          ufs_error_code := UFS_ERR_NO_MEM\<rparr>)"
              unfolding ufs_open_def e1
              by (simp only: e2 tg e3 e4 prod.case option.case if_False if_True simp_thms)
            with s4(1) a4(6) s1(3) tab1 show ?thesis
              by (intro failed [of "s4\<lparr>ufs_error_code := UFS_ERR_NO_MEM, alloc_plan := rest,
                          ufs_error_code := UFS_ERR_NO_MEM\<rparr>"]) simp_all
          next
            case (ok rest)
            let ?d = "\<lparr>fileptr = ?a, curr_data_segment = 0, flags = flgs, byte_pos = 0\<rparr>"
            define s' where "s' = s4\<lparr>file_list :=
                   AList.map_entry ?a (\<lambda>f. f\<lparr>refs := refs f + 1\<rparr>) (file_list s4),
                 file_descriptors := Some ((table s4)[?i := Some ?d]),
                 file_descriptor_count :=
                   (if int ?i = int (file_descriptor_count s4) then Suc (file_descriptor_count s4)
                    else file_descriptor_count s4),
                 ufs_error_code := UFS_ERR_NO_ERR, alloc_plan := rest\<rparr>"
            have inv': "ufs_inv s'"
              unfolding s'_def ufs_inv_simps
              using s4(1) a4(3,2,4,5) f [folded s4(2)]
              by (rule ufs_inv_install)
            have op: "ufs_open filename flgs s = (int ?i, s')"
              unfolding ufs_open_def e1
              using ok0 ex ok1
              apply (simp only: e2 tg e3 e4 ok a4(1) prod.case option.case if_False if_True simp_thms)
              apply (simp add: s'_def)
              done
            have 5: "file_list s' = AList.map_entry ?a (\<lambda>f. f\<lparr>refs := refs f + 1\<rparr>) ?fl"
              by (simp add: s'_def s4(2) fl2 s1(2))
            have 6: "slot (table s') ?i = Some ?d"
              using a4(2) by (simp add: s'_def)
            have 7: "slot (table s') i = slot (table s) i" if "i \<noteq> ?i" for i
              using that a4(6) [of i] s1(3) [of i] tab1 by (simp add: s'_def slot_update)
            have 8: "?i < file_descriptor_count s'"
              using a4(5) by (simp add: s'_def)
            from op inv' 5 6 7 8 show ?thesis
              by (intro opened [of s']) (simp_all add: s'_def)
          qed
        qed
      qed
    qed
  qed
qed

subsection \<open>ufs_close\<close>

lemma set_visible_delete: "set (visible_names (AList.delete a fl)) \<subseteq> set (visible_names fl)"
proof (induction fl)
  case Nil
  show ?case by simp
next
  case (Cons x fl)
  then show ?case by (cases x) auto
qed

lemma distinct_visible_delete:
  "distinct (visible_names fl) \<Longrightarrow> distinct (visible_names (AList.delete a fl))"
proof (induction fl)
  case Nil
  show ?case by simp
next
  case (Cons x fl)
  then show ?case
    using set_visible_delete [of a fl] by (cases x) (auto split: if_splits)
qed

lemma desc_ok_delete:
  "desc_ok fl d \<Longrightarrow> fileptr d \<noteq> a \<Longrightarrow> desc_ok (AList.delete a fl) d"
  by (simp add: desc_ok_def)

lemma refs_to_clear:
  assumes "i < length t" "t ! i = Some d"
  shows "int (refs_to a (t[i := None])) = int (refs_to a t) - (if fileptr d = a then 1 else 0)"
  using refs_to_update [OF assms(1), of a None] assms(2)
  by (cases "fileptr d = a") (simp_all add: points_to_def)

lemma ufs_inv_release:
  assumes inv: "ufs_inv s" and t: "file_descriptors s = Some t"
    and i: "i < file_descriptor_count s" "t ! i = Some d"
    and f: "map_of (file_list s) (fileptr d) = Some f"
  shows "ufs_inv (s\<lparr>file_list :=
                     (if refs f - 1 = 0 \<and> is_removed f then AList.delete (fileptr d) (file_list s)
                      else AList.map_entry (fileptr d) (\<lambda>f. f\<lparr>refs := refs f - 1\<rparr>) (file_list s)),
                   file_descriptors := Some (t[i := None]),
                   file_descriptor_count :=
                     (if i = file_descriptor_count s - 1
                      then trim_count (t[i := None]) (file_descriptor_count s)
                      else file_descriptor_count s)\<rparr>)"
    (is "ufs_inv ?s'")
proof -
  let ?a = "fileptr d" and ?n = "file_descriptor_count s" and ?t = "t[i := None]"
  from t have tab: "table s = t" by (simp add: table_def)
  from inv t have tok: "length t = file_descriptor_capacity s" "0 < file_descriptor_capacity s"
    "?n \<le> file_descriptor_capacity s" "\<And>j. ?n \<le> j \<Longrightarrow> j < length t \<Longrightarrow> t ! j = None"
    by (simp_all add: ufs_inv_iff table_ok_iff)
  from inv have dist: "distinct (map fst (file_list s))" "distinct (visible_names (file_list s))"
    and files: "\<And>b f. map_of (file_list s) b = Some f \<Longrightarrow>
        chain_ok (block_list f) \<and> refs f = int (refs_to b (table s))"
    and descs: "\<And>j d. j < length (table s) \<Longrightarrow> table s ! j = Some d \<Longrightarrow> desc_ok (file_list s) d"
    by (simp_all add: ufs_inv_iff)
  from i tok have il: "i < length t" by simp
  have r: "int (refs_to b ?t) = int (refs_to b t) - (if ?a = b then 1 else 0)" for b
    by (rule refs_to_clear [OF il i(2)])
  have 1: "table_ok ?s'"
  proof -
    have "?t ! j = None" if "trim_count ?t ?n \<le> j" "j < length t" for j
    proof (cases "j < ?n")
      case True
      from trim_count_None [OF that(1) True] that(2) show ?thesis by simp
    next
      case False
      with tok(4) [of j] that(2) show ?thesis by (cases "j = i") simp_all
    qed
    moreover have "?t ! j = None" if "?n \<le> j" "j < length t" for j
      using tok(4) [of j] that by (cases "j = i") simp_all
    moreover have "trim_count ?t ?n \<le> ?n" by (rule trim_count_le)
    ultimately show ?thesis
      using tok by (auto simp: table_ok_iff)
  qed
  have 2: "distinct (map fst (file_list ?s'))" "distinct (visible_names (file_list ?s'))"
    using dist by (simp_all add: visible_names_map_entry distinct_visible_delete AList.distinct_delete)
  have 3: "chain_ok (block_list f') \<and> refs f' = int (refs_to b (table ?s'))"
    if "map_of (file_list ?s') b = Some f'" for b f'
    using that files [of b] r [of b] tab f
    by (auto simp: map_of_map_entry_eq AList.delete_conv' split: if_splits)
  have 4: "desc_ok (file_list ?s') d'" if "j < length (table ?s')" "table ?s' ! j = Some d'" for j d'
  proof -
    from that have jl: "j < length t" by simp
    with that(2) have ji: "j \<noteq> i" by (cases "j = i") simp_all
    with that(2) have "t ! j = Some d'" by simp
    note j = jl ji this
    with tab have ok: "desc_ok (file_list s) d'" by (simp add: descs)
    show ?thesis
    proof (cases "refs f - 1 = 0 \<and> is_removed f")
      case False
      with ok show ?thesis by (auto intro: desc_ok_map_entry)
    next
      case True
      with files [OF f] r [of ?a] tab have "refs_to ?a ?t = 0" by simp
      then have "\<not> points_to ?a (?t ! j)" using j(1) by (simp add: refs_to_zero)
      with j have "fileptr d' \<noteq> ?a" by (simp add: points_to_def)
      with ok True show ?thesis by (simp add: desc_ok_delete)
    qed
  qed
  from 1 2 3 4 show ?thesis
    unfolding ufs_inv_iff by blast
qed

lemma adjust_frame:
  assumes "table_ok s"
  shows "slot (table (snd (adjust_container_capacity s))) j = slot (table s) j"
    and "file_list (snd (adjust_container_capacity s)) = file_list s"
    and "file_descriptor_count (snd (adjust_container_capacity s)) = file_descriptor_count s"
proof -
  show "file_list (snd (adjust_container_capacity s)) = file_list s"
    "file_descriptor_count (snd (adjust_container_capacity s)) = file_descriptor_count s"
    by (auto simp: adjust_container_capacity_def Let_def split: prod.splits bool.splits)
  show "slot (table (snd (adjust_container_capacity s))) j = slot (table s) j"
  proof (cases "file_descriptors s")
    case None
    with assms show ?thesis
      by (simp add: adjust_container_capacity_def table_ok_iff CAPACITY_MULTIPLIER_def)
  next
    case (Some t)
    with assms have tok: "length t = file_descriptor_capacity s"
      "\<And>j. file_descriptor_count s \<le> j \<Longrightarrow> j < length t \<Longrightarrow> t ! j = None"
      by (simp_all add: table_ok_iff)
    from Some have tab: "table s = t" by (simp add: table_def)
    have g: "slot (t @ replicate k None) j = slot t j" for k
      by (simp add: slot_def nth_append)
    have sh: "slot (take k t) j = slot t j" if "file_descriptor_count s < k" for k
      using tok(2) [of j] that by (simp add: slot_def)
    show ?thesis
      using g sh
      by (auto simp: adjust_container_capacity_def Let_def tab CAPACITY_MULTIPLIER_def
          split: prod.splits bool.splits)
  qed
qed

lemma adjust_plan_Nil:
  "alloc_plan s = [] \<Longrightarrow> alloc_plan (snd (adjust_container_capacity s)) = []"
  by (simp add: adjust_container_capacity_def Let_def)

lemma ufs_close_cases:
  assumes inv: "ufs_inv s"
  obtains (bad) "ufs_close fd s = Some (- 1, s\<lparr>ufs_error_code := UFS_ERR_NO_FILE\<rparr>)"
      "locate_descriptor fd s = None"
    | (closed) d f s' where
      "locate_descriptor fd s = Some d" "map_of (file_list s) (fileptr d) = Some f"
      "ufs_close fd s = Some (0, s')" "ufs_inv s'" "ufs_error_code s' = UFS_ERR_NO_ERR"
      "slot (table s') (nat fd) = None"
      "\<And>i. i \<noteq> nat fd \<Longrightarrow> slot (table s') i = slot (table s) i"
      "file_list s' =
         (if refs f - 1 = 0 \<and> is_removed f then AList.delete (fileptr d) (file_list s)
          else AList.map_entry (fileptr d) (\<lambda>f. f\<lparr>refs := refs f - 1\<rparr>) (file_list s))"
      "alloc_plan s = [] \<Longrightarrow> alloc_plan s' = []"
proof (cases "locate_descriptor fd s")
  case None
  then have "ufs_close fd s = Some (- 1, s\<lparr>ufs_error_code := UFS_ERR_NO_FILE\<rparr>)"
    by (auto simp: ufs_close_def locate_descriptor_def split: if_splits)
  then show ?thesis using None by (rule bad)
next
  case (Some d)
  let ?i = "nat fd" and ?n = "file_descriptor_count s"
  from Some have fd: "0 \<le> fd" "fd < int ?n" and sl: "slot (table s) ?i = Some d"
    by (auto simp: locate_descriptor_def split: if_splits)
  then have i: "?i < ?n" by simp
  from sl obtain t where t: "file_descriptors s = Some t" and tab: "table s = t"
    by (cases "file_descriptors s") (auto simp: table_def)
  from sl tab have ti: "?i < length t" "t ! ?i = Some d"
    by (auto simp: slot_def split: if_splits)
  from inv ti tab have "desc_ok (file_list s) d" by (simp add: ufs_inv_iff)
  then obtain f where f: "map_of (file_list s) (fileptr d) = Some f"
    by (auto simp: desc_ok_def split: option.splits)
  define s3 where "s3 = s\<lparr>file_list :=
         (if refs f - 1 = 0 \<and> is_removed f then AList.delete (fileptr d) (file_list s)
          else AList.map_entry (fileptr d) (\<lambda>f. f\<lparr>refs := refs f - 1\<rparr>) (file_list s)),
       file_descriptors := Some (t[?i := None]),
       file_descriptor_count :=
         (if ?i = ?n - 1 then trim_count (t[?i := None]) ?n else ?n)\<rparr>"
  have inv3: "ufs_inv s3"
    unfolding s3_def by (rule ufs_inv_release [OF inv t i ti(2) f])
  define s' where "s' = (snd (adjust_container_capacity s3))\<lparr>ufs_error_code := UFS_ERR_NO_ERR\<rparr>"
  have cl: "ufs_close fd s = Some (0, s')"
    using fd sl f
    by (simp add: ufs_close_def Let_def s'_def s3_def tab)
  from inv3 have tok3: "table_ok s3" by (simp add: ufs_inv_iff)
  have inv': "ufs_inv s'"
    using ufs_inv_adjust [OF inv3] by (simp add: s'_def)
  have 1: "slot (table s') ?i = None"
    using ti(1) by (simp add: s'_def adjust_frame(1) [OF tok3]) (simp add: s3_def)
  have 2: "slot (table s') j = slot (table s) j" if "j \<noteq> ?i" for j
    using that by (simp add: s'_def adjust_frame(1) [OF tok3]) (simp add: s3_def slot_update tab)
  have 3: "file_list s' =
         (if refs f - 1 = 0 \<and> is_removed f then AList.delete (fileptr d) (file_list s)
          else AList.map_entry (fileptr d) (\<lambda>f. f\<lparr>refs := refs f - 1\<rparr>) (file_list s))"
    by (simp add: s'_def adjust_frame(2) [OF tok3]) (simp add: s3_def)
  have 4: "alloc_plan s' = []" if "alloc_plan s = []"
    using that adjust_plan_Nil [of s3] by (simp add: s'_def s3_def)
  from Some f cl inv' 1 2 3 4 show ?thesis
    by (intro closed [of d f s']) (simp_all add: s'_def)
qed

subsection \<open>ufs_write and ufs_read on a well-formed state\<close>

lemma cur_ok_grows: "grows bs bs' \<Longrightarrow> cur_ok bs d \<Longrightarrow> cur_ok bs' d"
  by (fastforce simp: grows_def cur_ok_def intro: order_trans)

lemma map_entry_same:
  "distinct (map fst fl) \<Longrightarrow> map_of fl a = Some f \<Longrightarrow> AList.map_entry a (\<lambda>_. f) fl = fl"
proof (induction fl)
  case Nil
  then show ?case by simp
next
  case (Cons x fl)
  obtain b g where x: "x = (b, g)" by (cases x)
  show ?case
  proof (cases "b = a")
    case True
    with Cons.prems x show ?thesis by simp
  next
    case False
    with Cons x show ?thesis by simp
  qed
qed

lemma refs_to_replace:
  assumes "i < length t" "t ! i = Some d" "fileptr d' = fileptr d"
  shows "refs_to a (t[i := Some d']) = refs_to a t"
  using refs_to_update [OF assms(1), of a "Some d'"] assms(2,3)
  by (simp add: points_to_def)

lemma map_entry_cong_at:
  "map_of fl a = Some f \<Longrightarrow> g f = h f \<Longrightarrow> AList.map_entry a g fl = AList.map_entry a h fl"
proof (induction fl)
  case Nil
  then show ?case by simp
next
  case (Cons x fl)
  obtain b k where x: "x = (b, k)" by (cases x)
  with Cons show ?case by (cases "b = a") simp_all
qed

lemma same_file_eq: "same_file f f' \<Longrightarrow> f' = f\<lparr>block_list := block_list f'\<rparr>"
  by (simp add: same_file_def)

lemma map_entry_blocks:
  assumes "map_of fl a = Some f" "same_file f f'"
  shows "AList.map_entry a (\<lambda>_. f') fl = AList.map_entry a (\<lambda>h. h\<lparr>block_list := block_list f'\<rparr>) fl"
  using assms(1) by (rule map_entry_cong_at) (rule same_file_eq [OF assms(2)])

lemma ufs_inv_rewrite:
  assumes inv: "ufs_inv s" and t: "file_descriptors s = Some t"
    and i: "i < file_descriptor_count s" "t ! i = Some d"
    and f: "map_of (file_list s) (fileptr d) = Some f"
    and f': "chain_ok (block_list f')" "same_file f f'" "grows (block_list f) (block_list f')"
    and d': "same_desc d d'" "cur_ok (block_list f') d'"
  shows "ufs_inv (s\<lparr>file_list := AList.map_entry (fileptr d) (\<lambda>_. f') (file_list s),
                   file_descriptors := Some (t[i := Some d'])\<rparr>)"
    (is "ufs_inv ?s'")
proof -
  let ?a = "fileptr d"
  let ?g = "\<lambda>h. h\<lparr>block_list := block_list f'\<rparr>"
  from t have tab: "table s = t" by (simp add: table_def)
  from inv t have tok: "length t = file_descriptor_capacity s" "0 < file_descriptor_capacity s"
    "file_descriptor_count s \<le> file_descriptor_capacity s"
    "\<And>j. file_descriptor_count s \<le> j \<Longrightarrow> j < length t \<Longrightarrow> t ! j = None"
    by (simp_all add: ufs_inv_iff table_ok_iff)
  from inv have dist: "distinct (map fst (file_list s))" "distinct (visible_names (file_list s))"
    and files: "\<And>b f. map_of (file_list s) b = Some f \<Longrightarrow>
        chain_ok (block_list f) \<and> refs f = int (refs_to b (table s))"
    and descs: "\<And>j d. j < length (table s) \<Longrightarrow> table s ! j = Some d \<Longrightarrow> desc_ok (file_list s) d"
    by (simp_all add: ufs_inv_iff)
  from i tok have il: "i < length t" by simp
  from d'(1) have fp: "fileptr d' = ?a" by (simp add: same_desc_def)
  have fl: "file_list ?s' = AList.map_entry ?a ?g (file_list s)"
    by (simp add: map_entry_blocks [OF f f'(2)])
  have 1: "table_ok ?s'"
    using tok i il by (auto simp: table_ok_iff nth_list_update)
  have 2: "distinct (map fst (file_list ?s'))" "distinct (visible_names (file_list ?s'))"
    unfolding fl using dist by (simp_all add: visible_names_map_entry)
  have r: "refs_to b (table ?s') = refs_to b t" for b
    using refs_to_replace [OF il i(2) fp] by simp
  have 3: "chain_ok (block_list h) \<and> refs h = int (refs_to b (table ?s'))"
    if "map_of (file_list ?s') b = Some h" for b h
    using that files [of b] f f'(1) tab unfolding fl r
    by (auto simp: map_of_map_entry_eq split: if_splits)
  have 4: "desc_ok (file_list ?s') e" if "j < length (table ?s')" "table ?s' ! j = Some e" for j e
  proof (cases "j = i")
    case True
    with that il have "e = d'" by simp
    with f d'(2) fp show ?thesis
      unfolding fl by (simp add: desc_ok_def map_of_map_entry_eq)
  next
    case False
    with that tab have "desc_ok (file_list s) e" by (simp add: descs)
    then show ?thesis
      unfolding fl using f f'(3)
      by (rule_tac desc_ok_map_entry) (auto intro: cur_ok_grows)
  qed
  from 1 2 3 4 show ?thesis
    unfolding ufs_inv_iff by blast
qed

lemma locate_descriptor_Some:
  assumes "ufs_inv s" "locate_descriptor fd s = Some d"
  obtains t f where "file_descriptors s = Some t" "table s = t" "0 \<le> fd"
    "nat fd < file_descriptor_count s" "nat fd < length t" "t ! nat fd = Some d"
    "map_of (file_list s) (fileptr d) = Some f" "chain_ok (block_list f)" "cur_ok (block_list f) d"
proof -
  from assms(2) have fd: "0 \<le> fd" "nat fd < file_descriptor_count s"
    and sl: "slot (table s) (nat fd) = Some d"
    by (auto simp: locate_descriptor_def split: if_splits)
  from sl obtain t where t: "file_descriptors s = Some t" "table s = t"
    by (cases "file_descriptors s") (auto simp: table_def)
  from sl t have ti: "nat fd < length t" "t ! nat fd = Some d"
    by (auto simp: slot_def split: if_splits)
  with assms(1) t have "desc_ok (file_list s) d" by (simp add: ufs_inv_iff)
  then obtain f where f: "map_of (file_list s) (fileptr d) = Some f" "cur_ok (block_list f) d"
    by (auto simp: desc_ok_def split: option.splits)
  with assms(1) have "chain_ok (block_list f)" by (simp add: ufs_inv_iff)
  with t fd ti f show ?thesis by (intro that [of t f])
qed

lemma locate_descriptor_slot:
  "nat fd < file_descriptor_count s \<Longrightarrow> 0 \<le> fd \<Longrightarrow> locate_descriptor fd s = slot (table s) (nat fd)"
  by (simp add: locate_descriptor_def nat_less_iff)

lemma ufs_write_cases:
  assumes inv: "ufs_inv s" and plan: "alloc_plan s = []"
  obtains (nofile) "locate_descriptor fd s = None"
      "ufs_write fd buf s = Some (- 1, s\<lparr>ufs_error_code := UFS_ERR_NO_FILE\<rparr>)"
    | (denied) d where "locate_descriptor fd s = Some d" "\<not> is_writable (Some d)"
      "ufs_write fd buf s = Some (- 1, s\<lparr>ufs_error_code := UFS_ERR_NO_PERMISSION\<rparr>)"
    | (toobig) d f where "locate_descriptor fd s = Some d" "is_writable (Some d)"
      "map_of (file_list s) (fileptr d) = Some f"
      "occupied (block_list f ! curr_data_segment d) + curr_data_segment d * BLOCK_SIZE + length buf
         > MAX_FILE_SIZE"
      "ufs_write fd buf s = Some (- 1, s\<lparr>ufs_error_code := UFS_ERR_NO_MEM\<rparr>)"
    | (written) d f f' d' s' where "locate_descriptor fd s = Some d" "is_writable (Some d)"
      "map_of (file_list s) (fileptr d) = Some f"
      "occupied (block_list f ! curr_data_segment d) + curr_data_segment d * BLOCK_SIZE + length buf
         \<le> MAX_FILE_SIZE"
      "ufs_write fd buf s = Some (int (length buf), s')"
      "ufs_inv s'" "alloc_plan s' = []" "ufs_error_code s' = UFS_ERR_NO_ERR"
      "locate_descriptor fd s' = Some d'" "cursor d' = cursor d + length buf" "same_desc d d'"
      "file_list s' = AList.map_entry (fileptr d) (\<lambda>_. f') (file_list s)" "same_file f f'"
      "chain_data (block_list f') =
         take (cursor d) (chain_data (block_list f)) @ buf @
         drop (cursor d + length buf) (chain_data (block_list f))"
      "\<And>i. i \<noteq> nat fd \<Longrightarrow> slot (table s') i = slot (table s) i"
proof (cases "locate_descriptor fd s")
  case None
  then show ?thesis by (intro nofile) (simp_all add: ufs_write_def)
next
  case (Some d)
  show ?thesis
  proof (cases "is_writable (Some d)")
    case False
    with Some show ?thesis by (intro denied [of d]) (simp_all add: ufs_write_def)
  next
    case w: True
    from locate_descriptor_Some [OF inv Some] obtain t f where
      t: "file_descriptors s = Some t" "table s = t" and fd: "0 \<le> fd" "nat fd < file_descriptor_count s"
      and ti: "nat fd < length t" "t ! nat fd = Some d"
      and f: "map_of (file_list s) (fileptr d) = Some f" "chain_ok (block_list f)" "cur_ok (block_list f) d"
      by blast
    from f(3) have seg: "\<not> length (block_list f) \<le> curr_data_segment d" by (simp add: cur_ok_def)
    let ?total = "occupied (block_list f ! curr_data_segment d) + curr_data_segment d * BLOCK_SIZE"
    show ?thesis
    proof (cases "?total + length buf > MAX_FILE_SIZE")
      case True
      with Some w f(1) seg show ?thesis
        by (intro toobig [of d f]) (simp_all add: ufs_write_def Let_def)
    next
      case False
      from write_loop_ok [OF f(2,3), of buf 0] obtain f' d' where
        wl: "write_loop f d buf 0 [] = Some (UFS_ERR_NO_ERR, length buf, f', d', [])"
        and ok': "chain_ok (block_list f')" "cur_ok (block_list f') d'"
        and c': "cursor d' = cursor d + length buf"
        and data': "chain_data (block_list f') =
             take (cursor d) (chain_data (block_list f)) @ buf @
             drop (cursor d + length buf) (chain_data (block_list f))"
        and same': "same_file f f'" "same_desc d d'" "grows (block_list f) (block_list f')"
        by auto
      define s' where "s' = s\<lparr>file_list := AList.map_entry (fileptr d) (\<lambda>_. f') (file_list s),
           file_descriptors := Some (t[nat fd := Some d']),
           ufs_error_code := UFS_ERR_NO_ERR, alloc_plan := []\<rparr>"
      have inv': "ufs_inv s'"
        unfolding s'_def ufs_inv_simps
        by (rule ufs_inv_rewrite [OF inv t(1) fd(2) ti(2) f(1) ok'(1) same'(1,3,2) ok'(2)])
      have wr: "ufs_write fd buf s = Some (int (length buf), s')"
        using Some w f(1) seg False
        by (simp add: ufs_write_def Let_def plan wl s'_def t(2))
      have ld: "locate_descriptor fd s' = Some d'"
        using fd ti(1) by (simp add: locate_descriptor_slot s'_def)
      have oth: "slot (table s') i = slot (table s) i" if "i \<noteq> nat fd" for i
        using that by (simp add: s'_def slot_update t(2))
      from False have le: "?total + length buf \<le> MAX_FILE_SIZE" by simp
      from Some w f(1) le wr inv' ld c' same'(2) same'(1) data' oth show ?thesis
        by (intro written [of d f s' d' f']) (simp_all add: s'_def)
    qed
  qed
qed

lemma ufs_read_cases:
  assumes inv: "ufs_inv s"
  obtains (nofile) "locate_descriptor fd s = None"
      "ufs_read fd sz s = Some (- 1, [], s\<lparr>ufs_error_code := UFS_ERR_NO_FILE\<rparr>)"
    | (denied) d where "locate_descriptor fd s = Some d" "\<not> is_readable (Some d)"
      "ufs_read fd sz s = Some (- 1, [], s\<lparr>ufs_error_code := UFS_ERR_NO_PERMISSION\<rparr>)"
    | (finished) d f d' s' where "locate_descriptor fd s = Some d" "is_readable (Some d)"
      "map_of (file_list s) (fileptr d) = Some f"
      "ufs_read fd sz s =
         Some (int (length (take sz (drop (cursor d) (chain_data (block_list f))))),
               take sz (drop (cursor d) (chain_data (block_list f))), s')"
      "ufs_inv s'" "alloc_plan s' = alloc_plan s" "ufs_error_code s' = UFS_ERR_NO_ERR"
      "locate_descriptor fd s' = Some d'"
      "cursor d' = cursor d + length (take sz (drop (cursor d) (chain_data (block_list f))))"
      "same_desc d d'" "file_list s' = file_list s"
      "\<And>i. i \<noteq> nat fd \<Longrightarrow> slot (table s') i = slot (table s) i"
proof (cases "locate_descriptor fd s")
  case None
  then show ?thesis by (intro nofile) (simp_all add: ufs_read_def)
next
  case (Some d)
  show ?thesis
  proof (cases "is_readable (Some d)")
    case False
    with Some show ?thesis by (intro denied [of d]) (simp_all add: ufs_read_def)
  next
    case r: True
    from locate_descriptor_Some [OF inv Some] obtain t f where
      t: "file_descriptors s = Some t" "table s = t" and fd: "0 \<le> fd" "nat fd < file_descriptor_count s"
      and ti: "nat fd < length t" "t ! nat fd = Some d"
      and f: "map_of (file_list s) (fileptr d) = Some f" "chain_ok (block_list f)" "cur_ok (block_list f) d"
      by blast
    from f(3) have seg: "\<not> length (block_list f) < curr_data_segment d" by (simp add: cur_ok_def)
    let ?data = "take sz (drop (cursor d) (chain_data (block_list f)))"
    from read_loop_ok [OF f(2,3), of sz "[]"] obtain d' where
      rl: "read_loop (block_list f) d sz [] = Some (?data, d')"
      and ok': "cur_ok (block_list f) d'" and c': "cursor d' = cursor d + length ?data"
      and sd: "same_desc d d'"
      by auto
    define s' where "s' = s\<lparr>file_descriptors := Some (t[nat fd := Some d']),
         ufs_error_code := UFS_ERR_NO_ERR\<rparr>"
    from inv have dist: "distinct (map fst (file_list s))" by (simp add: ufs_inv_iff)
    have "ufs_inv (s\<lparr>file_list := AList.map_entry (fileptr d) (\<lambda>_. f) (file_list s),
                      file_descriptors := Some (t[nat fd := Some d'])\<rparr>)"
      by (rule ufs_inv_rewrite [OF inv t(1) fd(2) ti(2) f(1) f(2) _ _ sd ok']) simp_all
    then have inv': "ufs_inv s'"
      by (simp add: map_entry_same [OF dist f(1)] s'_def)
    have rd: "ufs_read fd sz s = Some (int (length ?data), ?data, s')"
      using Some r f(1) seg by (simp add: ufs_read_def rl s'_def t(2))
    have ld: "locate_descriptor fd s' = Some d'"
      using fd ti(1) by (simp add: locate_descriptor_slot s'_def)
    have oth: "slot (table s') i = slot (table s) i" if "i \<noteq> nat fd" for i
      using that by (simp add: s'_def slot_update t(2))
    from Some r f(1) rd inv' ld c' sd oth show ?thesis
      by (intro finished [of d f s' d']) (simp_all add: s'_def)
  qed
qed

subsection \<open>Writing when allocations may fail\<close>

lemma expand_storage_unit_cases:
  obtains (ok) rest where
      "expand_storage_unit f plan =
         (UFS_ERR_NO_ERR, f\<lparr>block_list := block_list f @ [new_data_cell]\<rparr>, rest)"
    | (fail) rest where "expand_storage_unit f plan = (UFS_ERR_NO_MEM, f, rest)"
proof (cases rule: alloc_cases [of plan])
  case a: (fail rest)
  then show ?thesis by (intro fail [of rest]) (simp add: expand_storage_unit_def)
next
  case a: (ok rest)
  show ?thesis
  proof (cases rule: alloc_cases [of rest])
    case (fail rest')
    with a show ?thesis by (intro that(2) [of rest']) (simp add: expand_storage_unit_def)
  next
    case (ok rest')
    with a show ?thesis by (intro that(1) [of rest']) (simp add: expand_storage_unit_def)
  qed
qed

lemma next_block_gen:
  assumes "chain_ok (block_list f)" "cur_ok (block_list f) d"
  shows "\<exists>err f1 d1 plan1. next_block_for_write f d plan = (err, f1, d1, plan1) \<and>
           chain_ok (block_list f1) \<and> cur_ok (block_list f1) d1 \<and>
           (err = UFS_ERR_NO_ERR \<longrightarrow> byte_pos d1 < BLOCK_SIZE) \<and>
           same_file f f1 \<and> same_desc d d1 \<and> grows (block_list f) (block_list f1)"
proof (cases "byte_pos d = BLOCK_SIZE \<and> \<not> Suc (curr_data_segment d) < length (block_list f)")
  case False
  show ?thesis
  proof (cases "byte_pos d = BLOCK_SIZE")
    case ne: False
    with cur_ok_pos [OF assms] assms show ?thesis
      by (simp add: next_block_for_write_def)
  next
    case True
    with False have nx: "Suc (curr_data_segment d) < length (block_list f)" by simp
    let ?d1 = "d\<lparr>curr_data_segment := Suc (curr_data_segment d), byte_pos := 0\<rparr>"
    have "next_block_for_write f d plan = (UFS_ERR_NO_ERR, f, ?d1, plan)"
      using True nx by (simp add: next_block_for_write_def)
    moreover have "cur_ok (block_list f) ?d1" "same_desc d ?d1"
      using nx by (simp_all add: cur_ok_def same_desc_def)
    ultimately show ?thesis using assms(1) by simp
  qed
next
  case True
  let ?i = "curr_data_segment d"
  let ?d1 = "d\<lparr>curr_data_segment := Suc ?i, byte_pos := 0\<rparr>"
  from assms True have i: "?i < length (block_list f)" and full: "occupied (block_list f ! ?i) = BLOCK_SIZE"
    using chain_ok_block [OF assms(1), of ?i] by (auto simp: cur_ok_def block_ok_def)
  with True have len: "length (block_list f) = Suc ?i" by simp
  show ?thesis
  proof (cases rule: expand_storage_unit_cases [of f plan])
    case (fail rest)
    with True assms show ?thesis
      by (simp add: next_block_for_write_def)
  next
    case (ok rest)
    let ?f1 = "f\<lparr>block_list := block_list f @ [new_data_cell]\<rparr>"
    have nb: "next_block_for_write f d plan = (UFS_ERR_NO_ERR, ?f1, ?d1, rest)"
      using True ok by (simp add: next_block_for_write_def)
    have 1: "chain_ok (block_list ?f1)"
      using chain_ok_expand [OF assms(1) len full] by simp
    have 2: "cur_ok (block_list ?f1) ?d1"
      by (simp add: cur_ok_def len nth_append)
    have 4: "same_file f ?f1" "same_desc d ?d1"
      by (simp_all add: same_file_def same_desc_def)
    have 5: "grows (block_list f) (block_list ?f1)"
      by (simp add: grows_def nth_append)
    from nb 1 2 4 5 show ?thesis by simp
  qed
qed

lemma write_loop_gen:
  assumes "chain_ok (block_list f)" "cur_ok (block_list f) d"
  shows "\<exists>err w' f' d' plan'. write_loop f d rest w plan = Some (err, w', f', d', plan') \<and>
           chain_ok (block_list f') \<and> cur_ok (block_list f') d' \<and>
           same_file f f' \<and> same_desc d d' \<and> grows (block_list f) (block_list f')"
  using assms
proof (induction "length rest" arbitrary: f d rest w plan rule: less_induct)
  case less
  show ?case
  proof (cases "rest = []")
    case True
    with less.prems show ?thesis
      by (subst write_loop.simps) simp
  next
    case False
    have guard: "\<not> (length (block_list f) \<le> curr_data_segment d \<or> BLOCK_SIZE < byte_pos d)"
      using less.prems cur_ok_pos [OF less.prems] by (simp add: cur_ok_def)
    from next_block_gen [OF less.prems, of plan] obtain err f1 d1 plan1 where
      nb: "next_block_for_write f d plan = (err, f1, d1, plan1)"
      and ok1: "chain_ok (block_list f1)" "cur_ok (block_list f1) d1"
      and pos1: "err = UFS_ERR_NO_ERR \<Longrightarrow> byte_pos d1 < BLOCK_SIZE"
      and same1: "same_file f f1" "same_desc d d1" "grows (block_list f) (block_list f1)"
      by blast
    show ?thesis
    proof (cases "err = UFS_ERR_NO_ERR")
      case e: False
      then have "write_loop f d rest w plan = Some (err, w, f1, d1, plan1)"
        using False guard by (subst write_loop.simps) (simp add: nb)
      with ok1 same1 show ?thesis by simp
    next
      case True
      note pos1 = pos1 [OF True]
      define n where "n = min (BLOCK_SIZE - byte_pos d1) (length rest)"
      define f2 where "f2 = f1\<lparr>block_list := (block_list f1)
          [curr_data_segment d1 :=
             copy_into_block (block_list f1 ! curr_data_segment d1) (byte_pos d1) (take n rest)]\<rparr>"
      define d2 where "d2 = d1\<lparr>byte_pos := byte_pos d1 + n\<rparr>"
      from False pos1 have n: "0 < n" "n \<le> length rest" "n \<le> BLOCK_SIZE - byte_pos d1"
        by (simp_all add: n_def)
      then have len: "length (take n rest) = n"
        by simp
      from chunk_ok [OF ok1 pos1, of "take n rest", unfolded len, OF n(3)]
      have ok2: "chain_ok (block_list f2)" "cur_ok (block_list f2) d2"
        and grows2: "grows (block_list f1) (block_list f2)"
        by (simp_all add: f2_def d2_def)
      have step: "write_loop f d rest w plan = write_loop f2 d2 (drop n rest) (w + n) plan1"
        using False guard True
        by (subst write_loop.simps) (simp add: nb Let_def f2_def d2_def n_def)
      from n False have "length (drop n rest) < length rest"
        by simp
      from less.hyps [OF this ok2, of "w + n" plan1] obtain err' w' f' d' plan' where
        wl: "write_loop f2 d2 (drop n rest) (w + n) plan1 = Some (err', w', f', d', plan')"
        and ok': "chain_ok (block_list f')" "cur_ok (block_list f') d'"
        and same': "same_file f2 f'" "same_desc d2 d'" "grows (block_list f2) (block_list f')"
        by blast
      have 4: "same_file f f'"
        using same1(1) same'(1) by (simp add: same_file_def f2_def)
      have 5: "same_desc d d'"
        using same1(2) same'(2) by (simp add: same_desc_def d2_def)
      have 6: "grows (block_list f) (block_list f')"
        using same1(3) grows2 same'(3) by (blast intro: grows_trans)
      from step wl ok' 4 5 6 show ?thesis
        by simp
    qed
  qed
qed

lemma ufs_write_inv:
  assumes inv: "ufs_inv s"
  shows "\<exists>r s'. ufs_write fd buf s = Some (r, s') \<and> ufs_inv s' \<and> - 1 \<le> r"
proof (cases "locate_descriptor fd s")
  case None
  with inv show ?thesis by (simp add: ufs_write_def)
next
  case (Some d)
  from locate_descriptor_Some [OF inv Some] obtain t f where
    t: "file_descriptors s = Some t" "table s = t" and fd: "0 \<le> fd" "nat fd < file_descriptor_count s"
    and ti: "nat fd < length t" "t ! nat fd = Some d"
    and f: "map_of (file_list s) (fileptr d) = Some f" "chain_ok (block_list f)" "cur_ok (block_list f) d"
    by blast
  from f(3) have seg: "\<not> length (block_list f) \<le> curr_data_segment d" by (simp add: cur_ok_def)
  from write_loop_gen [OF f(2,3), of buf 0 "alloc_plan s"] obtain err w' f' d' plan' where
    wl: "write_loop f d buf 0 (alloc_plan s) = Some (err, w', f', d', plan')"
    and ok': "chain_ok (block_list f')" "cur_ok (block_list f') d'"
    and same': "same_file f f'" "same_desc d d'" "grows (block_list f) (block_list f')"
    by blast
  have "ufs_inv (s\<lparr>file_list := AList.map_entry (fileptr d) (\<lambda>_. f') (file_list s),
           file_descriptors := Some (t[nat fd := Some d'])\<rparr>)"
    by (rule ufs_inv_rewrite [OF inv t(1) fd(2) ti(2) f(1) ok'(1) same'(1,3,2) ok'(2)])
  then have "ufs_inv (s\<lparr>ufs_error_code := err,
           file_list := AList.map_entry (fileptr d) (\<lambda>_. f') (file_list s),
           file_descriptors := Some (t[nat fd := Some d']), alloc_plan := plan'\<rparr>)"
    by (simp add: ufs_inv_def table_ok_def cong: option.case_cong)
  with Some f(1) seg inv wl t(2) show ?thesis
    by (auto simp: ufs_write_def Let_def)
qed

subsection \<open>ufs_delete\<close>

lemma visible_names_hide:
  assumes "distinct (map fst fl)" "distinct (visible_names fl)" "map_of fl a = Some f" "\<not> is_removed f"
  shows "distinct (visible_names (AList.map_entry a (\<lambda>f. f\<lparr>is_removed := True\<rparr>) fl)) \<and>
         set (visible_names (AList.map_entry a (\<lambda>f. f\<lparr>is_removed := True\<rparr>) fl)) =
         set (visible_names fl) - {name f}"
  using assms
proof (induction fl)
  case Nil
  then show ?case by simp
next
  case (Cons x fl)
  obtain b g where x: "x = (b, g)" by (cases x)
  show ?case
  proof (cases "b = a")
    case True
    with Cons.prems x show ?thesis by auto
  next
    case False
    with Cons.prems x have "map_of fl a = Some f" "distinct (map fst fl)" "distinct (visible_names fl)"
      by (auto split: if_splits)
    from Cons.IH [OF this(2,3,1) Cons.prems(4)] False x Cons.prems show ?thesis
      by (auto split: if_splits dest!: map_of_SomeD simp: visible_names_def image_iff)
  qed
qed

lemma ufs_delete_cases:
  assumes inv: "ufs_inv s"
  obtains (nofile) "find filename (file_list s) = None"
      "ufs_delete filename s = (- 1, s\<lparr>ufs_error_code := UFS_ERR_NO_FILE\<rparr>)"
    | (destroyed) a f where "find filename (file_list s) = Some (a, f)" "refs f = 0"
      "ufs_delete filename s =
         (0, s\<lparr>file_list := AList.delete a (file_list s), ufs_error_code := UFS_ERR_NO_ERR\<rparr>)"
      "ufs_inv (s\<lparr>file_list := AList.delete a (file_list s), ufs_error_code := UFS_ERR_NO_ERR\<rparr>)"
    | (hidden) a f where "find filename (file_list s) = Some (a, f)" "refs f \<noteq> 0"
      "ufs_delete filename s =
         (0, s\<lparr>file_list := AList.map_entry a (\<lambda>f. f\<lparr>is_removed := True\<rparr>) (file_list s),
               ufs_error_code := UFS_ERR_NO_ERR\<rparr>)"
      "ufs_inv (s\<lparr>file_list := AList.map_entry a (\<lambda>f. f\<lparr>is_removed := True\<rparr>) (file_list s),
                 ufs_error_code := UFS_ERR_NO_ERR\<rparr>)"
      "find filename (AList.map_entry a (\<lambda>f. f\<lparr>is_removed := True\<rparr>) (file_list s)) = None"
proof (cases "find filename (file_list s)")
  case None
  then show ?thesis by (intro nofile) (simp_all add: ufs_delete_def)
next
  case (Some af)
  obtain a f where af: "af = (a, f)" by (cases af)
  from inv have dist: "distinct (map fst (file_list s))" "distinct (visible_names (file_list s))"
    and files: "\<And>b f. map_of (file_list s) b = Some f \<Longrightarrow>
        chain_ok (block_list f) \<and> refs f = int (refs_to b (table s))"
    and descs: "\<And>j d. j < length (table s) \<Longrightarrow> table s ! j = Some d \<Longrightarrow> desc_ok (file_list s) d"
    and tok: "table_ok s"
    by (simp_all add: ufs_inv_iff)
  from Some af have fnd: "find filename (file_list s) = Some (a, f)" by simp
  from find_Some [OF fnd] have vis: "\<not> is_removed f" "name f = filename" by simp_all
  from find_map_of [OF dist(1) fnd] have mf: "map_of (file_list s) a = Some f" .
  show ?thesis
  proof (cases "refs f = 0")
    case True
    let ?s' = "s\<lparr>file_list := AList.delete a (file_list s), ufs_error_code := UFS_ERR_NO_ERR\<rparr>"
    from True files [OF mf] have "refs_to a (table s) = 0" by simp
    then have np: "\<And>j d. j < length (table s) \<Longrightarrow> table s ! j = Some d \<Longrightarrow> fileptr d \<noteq> a"
      by (auto simp: refs_to_zero points_to_def)
    have 1: "table_ok ?s'" using tok by simp
    have 2: "distinct (map fst (file_list ?s'))" "distinct (visible_names (file_list ?s'))"
      using dist by (simp_all add: AList.distinct_delete distinct_visible_delete)
    have 3: "chain_ok (block_list h) \<and> refs h = int (refs_to b (table ?s'))"
      if "map_of (file_list ?s') b = Some h" for b h
      using that files [of b h] by (cases "b = a") (simp_all add: AList.delete_conv')
    have 4: "desc_ok (file_list ?s') e" if "j < length (table ?s')" "table ?s' ! j = Some e" for j e
      using that descs [of j e] np [of j e] by (simp add: desc_ok_delete)
    from 1 2 3 4 have "ufs_inv ?s'"
      unfolding ufs_inv_iff by blast
    with fnd True show ?thesis
      by (intro destroyed [of a f]) (simp_all add: ufs_delete_def rm_def)
  next
    case False
    let ?g = "\<lambda>f. f\<lparr>is_removed := True\<rparr>"
    let ?s' = "s\<lparr>file_list := AList.map_entry a ?g (file_list s), ufs_error_code := UFS_ERR_NO_ERR\<rparr>"
    note vh = visible_names_hide [OF dist mf vis(1)]
    have 1: "table_ok ?s'" using tok by simp
    have 2: "distinct (map fst (file_list ?s'))" "distinct (visible_names (file_list ?s'))"
      using dist vh by simp_all
    have 3: "chain_ok (block_list h) \<and> refs h = int (refs_to b (table ?s'))"
      if "map_of (file_list ?s') b = Some h" for b h
      using that files [of b] by (cases "b = a") (auto simp: map_of_map_entry_eq)
    have 4: "desc_ok (file_list ?s') e" if "j < length (table ?s')" "table ?s' ! j = Some e" for j e
      using that descs [of j e] by (auto intro: desc_ok_map_entry)
    from 1 2 3 4 have "ufs_inv ?s'"
      unfolding ufs_inv_iff by blast
    moreover have "find filename (AList.map_entry a ?g (file_list s)) = None"
      using vh vis(2) by (simp add: find_None)
    ultimately show ?thesis using fnd False
      by (intro hidden [of a f]) (simp_all add: ufs_delete_def)
  qed
qed

section \<open>UFS: the claims\<close>

lemma full_table:
  "list_all (\<lambda>x. x \<noteq> None) t \<Longrightarrow> free_index t = length t"
  by (rule free_index_unique) (simp_all add: slot_def list_all_length)

text \<open>
  C5. Every successful ufs_open (any result other than -1) returns the smallest index of
  the descriptor table that holds no descriptor: the slot at the returned index was free,
  every slot below it is occupied, and afterwards the table has that slot and the new
  descriptor is in it. In particular, when the state is the result of a successful
  ufs_close of descriptor \<open>k\<close>, the index is at most \<open>k\<close>. And the call does succeed when
  every allocation succeeds and the file exists or is to be created: it returns that
  index, puts the descriptor there and leaves every other slot as it was. The table is
  created with DESCRIPTOR_POOL_START_SIZE slots by the first call, keeps its length while
  it has a free slot, and when it is full (no slot is NULL) the call returns the table's
  length as the index and the table has twice as many slots afterwards.
\<close>

theorem ufs_open_smallest_free_index:
  assumes "ufs_inv s"
  shows "(\<forall>fd s'. ufs_open filename flgs s = (fd, s') \<and> fd \<noteq> - 1 \<longrightarrow>
            fd = int (free_index (table s)) \<and>
            slot (table s) (nat fd) = None \<and> (\<forall>j<nat fd. slot (table s) j \<noteq> None) \<and>
            nat fd < length (table s') \<and> slot (table s') (nat fd) \<noteq> None \<and>
            (\<forall>s0 k. ufs_inv s0 \<longrightarrow> ufs_close k s0 = Some (0, s) \<longrightarrow> fd \<le> k)) \<and>
         (alloc_plan s = [] \<and>
          (find filename (file_list s) \<noteq> None \<or> flgs AND UFS_CREATE \<noteq> 0) \<longrightarrow>
            (\<exists>s'. ufs_open filename flgs s = (int (free_index (table s)), s') \<and>
               slot (table s') (free_index (table s)) \<noteq> None \<and>
               (\<forall>i. i \<noteq> free_index (table s) \<longrightarrow> slot (table s') i = slot (table s) i) \<and>
               length (table s') =
                 (if file_descriptors s = None then DESCRIPTOR_POOL_START_SIZE
                  else if free_index (table s) < length (table s) then length (table s)
                  else 2 * length (table s)) \<and>
               (file_descriptors s \<noteq> None \<and> list_all (\<lambda>x. x \<noteq> None) (table s) \<longrightarrow>
                  free_index (table s) = length (table s) \<and>
                  length (table s') = 2 * length (table s))))"
proof -
  have 1: "fd = int (free_index (table s)) \<and>
      slot (table s) (nat fd) = None \<and> (\<forall>j<nat fd. slot (table s) j \<noteq> None) \<and>
      nat fd < length (table s') \<and> slot (table s') (nat fd) \<noteq> None \<and>
      (\<forall>s0 k. ufs_inv s0 \<longrightarrow> ufs_close k s0 = Some (0, s) \<longrightarrow> fd \<le> k)"
    if o: "ufs_open filename flgs s = (fd, s')" and ok: "fd \<noteq> - 1" for fd s'
    using assms
  proof (cases rule: ufs_open_cases [of s filename flgs])
    case (fail s1)
    with o ok show ?thesis by simp
  next
    case (ok s1)
    with o have fd: "fd = int (free_index (table s))" and s1: "s1 = s'" by simp_all
    have 1: "slot (table s) (nat fd) = None"
      by (simp add: fd free_index_free)
    have 2: "\<forall>j<nat fd. slot (table s) j \<noteq> None"
      by (simp add: fd free_index_least)
    from ok(5) have 3: "slot (table s') (nat fd) \<noteq> None"
      by (simp add: fd s1)
    then have 4: "nat fd < length (table s')"
      by (auto simp: slot_def split: if_splits)
    have 5: "fd \<le> k" if "ufs_inv s0" "ufs_close k s0 = Some (0, s)" for s0 k
      using that(1)
    proof (cases rule: ufs_close_cases [of s0 k])
      case bad
      with that(2) show ?thesis by simp
    next
      case (closed d f s2)
      with that(2) have "slot (table s) (nat k) = None" by simp
      with free_index_least [of "nat k" "table s"] have "free_index (table s) \<le> nat k"
        by (cases "nat k < free_index (table s)") auto
      moreover from closed(1) have "0 \<le> k"
        by (auto simp: locate_descriptor_def split: if_splits)
      ultimately show ?thesis by (simp add: fd)
    qed
    from fd 1 2 3 4 5 show ?thesis by blast
  qed
  have 2: "\<exists>s'. ufs_open filename flgs s = (int (free_index (table s)), s') \<and>
       slot (table s') (free_index (table s)) \<noteq> None \<and>
       (\<forall>i. i \<noteq> free_index (table s) \<longrightarrow> slot (table s') i = slot (table s) i) \<and>
       length (table s') =
         (if file_descriptors s = None then DESCRIPTOR_POOL_START_SIZE
          else if free_index (table s) < length (table s) then length (table s)
          else 2 * length (table s)) \<and>
       (file_descriptors s \<noteq> None \<and> list_all (\<lambda>x. x \<noteq> None) (table s) \<longrightarrow>
          free_index (table s) = length (table s) \<and>
          length (table s') = 2 * length (table s))"
    if plan: "alloc_plan s = []"
      and ex: "find filename (file_list s) \<noteq> None \<or> flgs AND UFS_CREATE \<noteq> 0"
  proof -
    obtain s' where o: "ufs_open filename flgs s = (int (free_index (table s)), s')"
      and sl: "slot (table s') (free_index (table s)) =
         Some \<lparr>fileptr = open_target filename (file_list s), curr_data_segment = 0,
               flags = flgs, byte_pos = 0\<rparr>"
      and ot: "\<And>i. i \<noteq> free_index (table s) \<Longrightarrow> slot (table s') i = slot (table s) i"
      and len: "length (table s') =
         (if file_descriptors s = None then DESCRIPTOR_POOL_START_SIZE
          else if free_index (table s) < length (table s) then length (table s)
          else 2 * length (table s))"
      by (rule ufs_open_ok [OF assms plan ex]) blast
    have "free_index (table s) = length (table s) \<and> length (table s') = 2 * length (table s)"
      if "file_descriptors s \<noteq> None" "list_all (\<lambda>x. x \<noteq> None) (table s)"
      using full_table [OF that(2)] len that(1) by simp
    with o sl ot len show ?thesis by (intro exI [of _ s']) simp
  qed
  from 1 2 show ?thesis by blast
qed

lemma ufs_start_simps [simp]:
  "alloc_plan (ufs_start plan) = plan" "file_list (ufs_start plan) = []"
  "table (ufs_start plan) = []" "file_descriptor_count (ufs_start plan) = 0"
  by (simp_all add: ufs_start_def table_def)

lemma free_index_Nil [simp]: "free_index [] = 0"
  by (simp add: free_index_def)

lemma create_bit: "find filename files \<noteq> None \<or> UFS_CREATE AND UFS_CREATE \<noteq> 0"
  by (simp add: UFS_CREATE_def)

lemma locate_descriptor_opened:
  assumes "slot (table s) i = Some d" "i < file_descriptor_count s"
  shows "locate_descriptor (int i) s = Some d"
  using assms by (simp add: locate_descriptor_def)

text \<open>The client's states \<open>open_many n\<close> on the empty file system, up to the first full table.\<close>

lemma open_many_start:
  "n \<le> DESCRIPTOR_POOL_START_SIZE \<Longrightarrow>
   ufs_inv (open_many n (ufs_start [])) \<and> alloc_plan (open_many n (ufs_start [])) = [] \<and>
   (\<forall>j. slot (table (open_many n (ufs_start []))) j \<noteq> None \<longleftrightarrow> j < n) \<and>
   (file_descriptors (open_many n (ufs_start [])) = None \<longleftrightarrow> n = 0) \<and>
   (0 < n \<longrightarrow> length (table (open_many n (ufs_start []))) = DESCRIPTOR_POOL_START_SIZE) \<and>
   n \<le> file_descriptor_count (open_many n (ufs_start []))"
proof (induction n)
  case 0
  show ?case by (simp add: ufs_inv_start) (simp add: ufs_start_def)
next
  case (Suc n)
  let ?s = "open_many n (ufs_start [])"
  from Suc have inv: "ufs_inv ?s" and plan: "alloc_plan ?s = []"
    and sl: "\<And>j. slot (table ?s) j \<noteq> None \<longleftrightarrow> j < n"
    and fd: "file_descriptors ?s = None \<longleftrightarrow> n = 0"
    and len: "0 < n \<Longrightarrow> length (table ?s) = DESCRIPTOR_POOL_START_SIZE"
    and n: "n < DESCRIPTOR_POOL_START_SIZE"
    by simp_all
  have fi: "free_index (table ?s) = n"
  proof (rule free_index_unique)
    show "slot (table ?s) n = None" using sl [of n] by simp
    show "slot (table ?s) j \<noteq> None" if "j < n" for j using sl [of j] that by simp
  qed
  obtain s' where o: "ufs_open ''f'' UFS_CREATE ?s = (int (free_index (table ?s)), s')"
    and inv': "ufs_inv s'" and plan': "alloc_plan s' = []"
    and new: "slot (table s') (free_index (table ?s)) =
         Some \<lparr>fileptr = open_target ''f'' (file_list ?s), curr_data_segment = 0,
               flags = UFS_CREATE, byte_pos = 0\<rparr>"
    and ot: "\<And>i. i \<noteq> free_index (table ?s) \<Longrightarrow> slot (table s') i = slot (table ?s) i"
    and len': "length (table s') =
         (if file_descriptors ?s = None then DESCRIPTOR_POOL_START_SIZE
          else if free_index (table ?s) < length (table ?s) then length (table ?s)
          else 2 * length (table ?s))"
    and cnt: "free_index (table ?s) < file_descriptor_count s'"
    by (rule ufs_open_ok [OF inv plan create_bit, of "''f''"]) blast
  from o have eq: "open_many (Suc n) (ufs_start []) = s'" by simp
  have 1: "slot (table s') j \<noteq> None \<longleftrightarrow> j < Suc n" for j
    using new ot [of j] sl [of j] by (cases "j = n") (auto simp: fi)
  have 2: "length (table s') = DESCRIPTOR_POOL_START_SIZE"
    using len' fd len n by (cases "n = 0") (simp_all add: fi)
  from new have 3: "file_descriptors s' \<noteq> None"
    by (cases "file_descriptors s'") (simp_all add: table_def)
  from cnt have 4: "Suc n \<le> file_descriptor_count s'" by (simp add: fi)
  from inv' plan' 1 2 3 4 show ?case unfolding eq by simp
qed

theorem ufs_open_smallest_free_index_witness:
  "list_all (\<lambda>x. x \<noteq> None) (table (open_many 10 (ufs_start []))) \<and>
   length (table (open_many 10 (ufs_start []))) = 10 \<and>
   fst (ufs_open ''g'' UFS_CREATE (open_many 10 (ufs_start []))) = 10 \<and>
   length (table (snd (ufs_open ''g'' UFS_CREATE (open_many 10 (ufs_start []))))) = 20 \<and>
   slot (table (snd (ufs_open ''g'' UFS_CREATE (open_many 10 (ufs_start []))))) 10 \<noteq> None \<and>
   (\<exists>s. ufs_close 1 (open_many 3 (ufs_start [])) = Some (0, s) \<and>
        slot (table s) 0 \<noteq> None \<and> slot (table s) 1 = None \<and> slot (table s) 2 \<noteq> None \<and>
        fst (ufs_open ''g'' UFS_CREATE s) = 1 \<and>
        slot (table (snd (ufs_open ''g'' UFS_CREATE s))) 1 \<noteq> None)"
proof -
  let ?t = "open_many 10 (ufs_start [])"
  from open_many_start [of 10] have t: "ufs_inv ?t" "alloc_plan ?t = []"
    "\<And>j. slot (table ?t) j \<noteq> None \<longleftrightarrow> j < 10" "file_descriptors ?t \<noteq> None"
    "length (table ?t) = 10"
    by (simp_all add: DESCRIPTOR_POOL_START_SIZE_def)
  have full: "list_all (\<lambda>x. x \<noteq> None) (table ?t)"
    unfolding list_all_length
  proof (intro allI impI)
    fix i assume "i < length (table ?t)"
    with t(3) [of i] t(5) show "table ?t ! i \<noteq> None" by (simp add: slot_def)
  qed
  have ex: "find ''g'' (file_list ?t) \<noteq> None \<or> UFS_CREATE AND UFS_CREATE \<noteq> 0"
    by (rule create_bit)
  from ufs_open_smallest_free_index [OF t(1), of "''g''" UFS_CREATE] t(2) ex full t(4)
  obtain t' where "ufs_open ''g'' UFS_CREATE ?t = (int (free_index (table ?t)), t')"
    "slot (table t') (free_index (table ?t)) \<noteq> None"
    "free_index (table ?t) = length (table ?t)" "length (table t') = 2 * length (table ?t)"
    by blast
  then have A: "fst (ufs_open ''g'' UFS_CREATE ?t) = 10"
    "length (table (snd (ufs_open ''g'' UFS_CREATE ?t))) = 20"
    "slot (table (snd (ufs_open ''g'' UFS_CREATE ?t))) 10 \<noteq> None"
    by (simp_all add: t(5))
  let ?u = "open_many 3 (ufs_start [])"
  from open_many_start [of 3] have u: "ufs_inv ?u" "alloc_plan ?u = []"
    "\<And>j. slot (table ?u) j \<noteq> None \<longleftrightarrow> j < 3" "file_descriptors ?u \<noteq> None"
    "length (table ?u) = 10" "3 \<le> file_descriptor_count ?u"
    by (simp_all add: DESCRIPTOR_POOL_START_SIZE_def)
  from u(3) [of 1] obtain d where "slot (table ?u) 1 = Some d" by auto
  with u(6) have l: "locate_descriptor 1 ?u = Some d"
    using locate_descriptor_opened [of ?u 1 d] by simp
  from u(1) obtain s where c: "ufs_close 1 ?u = Some (0, s)" and inv: "ufs_inv s"
    and hole: "slot (table s) (nat 1) = None"
    and ot: "\<And>i. i \<noteq> nat 1 \<Longrightarrow> slot (table s) i = slot (table ?u) i"
    and plan: "alloc_plan s = []"
  proof (cases rule: ufs_close_cases [of ?u 1])
    case bad
    with l show ?thesis by simp
  next
    case (closed d0 f0 s')
    with u(2) show ?thesis by (intro that [of s']) simp_all
  qed
  from hole ot [of 0] ot [of 2] u(3) [of 0] u(3) [of 2]
  have B: "slot (table s) 0 \<noteq> None" "slot (table s) 1 = None" "slot (table s) 2 \<noteq> None"
    by simp_all
  have fi: "free_index (table s) = 1"
  proof (rule free_index_unique)
    show "slot (table s) 1 = None" by (rule B(2))
    show "slot (table s) j \<noteq> None" if "j < 1" for j using that B(1) by simp
  qed
  have ex': "find ''g'' (file_list s) \<noteq> None \<or> UFS_CREATE AND UFS_CREATE \<noteq> 0"
    by (rule create_bit)
  from ufs_open_smallest_free_index [OF inv, of "''g''" UFS_CREATE] plan ex'
  obtain s' where "ufs_open ''g'' UFS_CREATE s = (int (free_index (table s)), s')"
    "slot (table s') (free_index (table s)) \<noteq> None"
    by blast
  then have C: "fst (ufs_open ''g'' UFS_CREATE s) = 1"
    "slot (table (snd (ufs_open ''g'' UFS_CREATE s))) 1 \<noteq> None"
    by (simp_all add: fi)
  from full t(5) A c B C show ?thesis by blast
qed

subsection \<open>Writing a fresh file and reading it back\<close>

lemma is_readable_flags: "is_readable (Some d) \<longleftrightarrow> flags d \<in> {0, UFS_CREATE, UFS_READ_ONLY, UFS_READ_WRITE}"
  by (auto simp: is_readable_def Let_def)

lemma is_writable_flags: "is_writable (Some d) \<longleftrightarrow> flags d \<in> {0, UFS_CREATE, UFS_WRITE_ONLY, UFS_READ_WRITE}"
  by (auto simp: is_writable_def Let_def)

lemma same_desc_readable: "same_desc d d' \<Longrightarrow> is_readable (Some d') = is_readable (Some d)"
  by (simp add: is_readable_flags same_desc_def)

lemma drop_take_length: "drop (length (take n xs)) xs = drop n xs"
  by (cases "n \<le> length xs") (simp_all add: min_def)

lemma read_until_eof_ok:
  assumes "ufs_inv s" "locate_descriptor fd s = Some d" "is_readable (Some d)"
    "map_of (file_list s) (fileptr d) = Some f" "0 < sz"
    "length (chain_data (block_list f)) - cursor d < fuel"
  shows "\<exists>s'. read_until_eof fuel fd sz s = Some (drop (cursor d) (chain_data (block_list f)), s') \<and>
           ufs_inv s' \<and> file_list s' = file_list s \<and> alloc_plan s' = alloc_plan s"
  using assms
proof (induction fuel arbitrary: s d)
  case 0
  then show ?case by simp
next
  case (Suc fuel)
  let ?D = "chain_data (block_list f)"
  let ?data = "take sz (drop (cursor d) ?D)"
  from Suc.prems(1) show ?case
  proof (cases rule: ufs_read_cases [of s fd sz])
    case nofile
    with Suc.prems show ?thesis by simp
  next
    case (denied d0)
    with Suc.prems show ?thesis by simp
  next
    case (finished d0 f0 d' s')
    with Suc.prems have eq: "d0 = d" "f0 = f" by simp_all
    note fin = finished [unfolded eq]
    show ?thesis
    proof (cases "?data = []")
      case True
      with Suc.prems(5) have "drop (cursor d) ?D = []" by (cases sz) auto
      with True fin show ?thesis by simp
    next
      case False
      then have pos: "0 < length ?data" by simp
      have r': "is_readable (Some d')"
        using same_desc_readable [OF fin(10)] Suc.prems(3) by simp
      from fin(10) have fp: "fileptr d' = fileptr d" by (simp add: same_desc_def)
      have f': "map_of (file_list s') (fileptr d') = Some f"
        using fin(11) Suc.prems(4) fp by simp
      have fuel': "length ?D - cursor d' < fuel"
        using Suc.prems(6) pos fin(9) by (auto simp: min_def split: if_splits)
      from Suc.IH [OF fin(5) fin(8) r' f' Suc.prems(5) fuel'] obtain s'' where
        ru: "read_until_eof fuel fd sz s' = Some (drop (cursor d') ?D, s'')"
        and rest: "ufs_inv s''" "file_list s'' = file_list s'" "alloc_plan s'' = alloc_plan s'"
        by blast
      have "drop (cursor d') ?D = drop sz (drop (cursor d) ?D)"
        using drop_take_length [of sz "drop (cursor d) ?D"] by (simp add: fin(9) add.commute)
      then have cat: "?data @ drop (cursor d') ?D = drop (cursor d) ?D"
        by (simp only: append_take_drop_id)
      from pos have nz: "int (length ?data) \<noteq> 0" "\<not> int (length ?data) < 0" by simp_all
      have "read_until_eof (Suc fuel) fd sz s = Some (?data @ drop (cursor d') ?D, s'')"
        using nz by (simp add: fin(4) ru del: length_take)
      with cat rest fin show ?thesis by simp
    qed
  qed
qed

lemma chain_data_empty_file [simp]: "chain_data (block_list (empty_file filename)) = []"
  by (simp add: empty_file_def new_data_cell_def block_data_def)

lemma occupied_empty_file [simp]:
  "occupied (block_list (empty_file filename) ! 0) = 0"
  by (simp add: empty_file_def new_data_cell_def)

lemma open_fresh [simp]:
  assumes "find filename files = None"
  shows "open_target filename files = new_address files"
    "open_files filename files = (new_address files, empty_file filename) # files"
  using assms by (simp_all add: open_target_def open_files_def)

lemma open_found [simp]:
  assumes "find filename files = Some (a, f)"
  shows "open_target filename files = a" "open_files filename files = files"
  using assms by (simp_all add: open_target_def open_files_def)

text \<open>
  Creating a file, writing \<open>B\<close> through the new descriptor and closing it: the three calls
  succeed, the descriptor table is as before, and the file stays under its name with the
  payload \<open>B\<close> and no reference.
\<close>

lemma fresh_write_close:
  assumes inv: "ufs_inv s" and plan: "alloc_plan s = []"
    and fresh: "find filename (file_list s) = None" and len: "length B \<le> MAX_FILE_SIZE"
  obtains s1 s2 s3 f where
    "ufs_open filename UFS_CREATE s = (int (free_index (table s)), s1)"
    "ufs_inv s1" "alloc_plan s1 = []"
    "ufs_write (int (free_index (table s))) B s1 = Some (int (length B), s2)"
    "ufs_inv s2" "alloc_plan s2 = []"
    "ufs_close (int (free_index (table s))) s2 = Some (0, s3)"
    "ufs_inv s3" "alloc_plan s3 = []"
    "file_list s3 = (new_address (file_list s), f) # file_list s"
    "chain_data (block_list f) = B" "refs f = 0" "name f = filename" "\<not> is_removed f"
    "\<And>i. slot (table s3) i = slot (table s) i"
proof -
  let ?i = "free_index (table s)" and ?a = "new_address (file_list s)"
  let ?d = "\<lparr>fileptr = ?a, curr_data_segment = 0, flags = UFS_CREATE, byte_pos = 0\<rparr>"
  let ?e = "(empty_file filename)\<lparr>refs := refs (empty_file filename) + 1\<rparr>"
  obtain s1 where o: "ufs_open filename UFS_CREATE s = (int ?i, s1)"
    and inv1: "ufs_inv s1" and p1: "alloc_plan s1 = []"
    and fl1: "file_list s1 =
       AList.map_entry (open_target filename (file_list s)) (\<lambda>f. f\<lparr>refs := refs f + 1\<rparr>)
         (open_files filename (file_list s))"
    and sl1: "slot (table s1) ?i =
       Some \<lparr>fileptr = open_target filename (file_list s), curr_data_segment = 0,
             flags = UFS_CREATE, byte_pos = 0\<rparr>"
    and ot1: "\<And>i. i \<noteq> ?i \<Longrightarrow> slot (table s1) i = slot (table s) i"
    and c1: "?i < file_descriptor_count s1"
    by (rule ufs_open_ok [OF inv plan create_bit, of filename]) blast
  from fl1 fresh have fl1': "file_list s1 = (?a, ?e) # file_list s" by simp
  from sl1 fresh have sl1': "slot (table s1) ?i = Some ?d" by simp
  from locate_descriptor_opened [OF sl1' c1] have l1: "locate_descriptor (int ?i) s1 = Some ?d" .
  have w: "is_writable (Some ?d)" by (simp add: is_writable_flags)
  have m1: "map_of (file_list s1) ?a = Some ?e" by (simp add: fl1')
  from inv1 p1 obtain f' d' s2 where
    wr: "ufs_write (int ?i) B s1 = Some (int (length B), s2)"
    and inv2: "ufs_inv s2" and p2: "alloc_plan s2 = []"
    and l2: "locate_descriptor (int ?i) s2 = Some d'" and sd: "same_desc ?d d'"
    and fl2: "file_list s2 = AList.map_entry ?a (\<lambda>_. f') (file_list s1)"
    and sf: "same_file ?e f'"
    and data: "chain_data (block_list f') =
         take (cursor ?d) (chain_data (block_list ?e)) @ B @
         drop (cursor ?d + length B) (chain_data (block_list ?e))"
    and ot2: "\<And>i. i \<noteq> ?i \<Longrightarrow> slot (table s2) i = slot (table s1) i"
  proof (cases rule: ufs_write_cases [of s1 "int ?i" B])
    case nofile
    with l1 show ?thesis by simp
  next
    case (denied d)
    with l1 w show ?thesis by simp
  next
    case (toobig d f)
    from toobig(1,3) l1 m1 have "d = ?d" "f = ?e" by auto
    with toobig(4) len show ?thesis by simp
  next
    case (written d f f' d' s')
    from written(1,3) l1 m1 have "d = ?d" "f = ?e" by auto
    with written show ?thesis by (intro that [of s' d' f']) simp_all
  qed
  from data have data': "chain_data (block_list f') = B" by simp
  from fl2 have fl2': "file_list s2 = (?a, f') # file_list s" by (simp add: fl1')
  from sd have fp: "fileptr d' = ?a" by (simp add: same_desc_def)
  from sf have f': "refs f' = 1" "name f' = filename" "\<not> is_removed f'"
    by (simp_all add: same_file_def empty_file_def)
  from inv2 obtain s3 where
    cl: "ufs_close (int ?i) s2 = Some (0, s3)" and inv3: "ufs_inv s3"
    and sl3: "slot (table s3) ?i = None"
    and ot3: "\<And>i. i \<noteq> ?i \<Longrightarrow> slot (table s3) i = slot (table s2) i"
    and fl3: "file_list s3 = (?a, f'\<lparr>refs := refs f' - 1\<rparr>) # file_list s"
    and p3: "alloc_plan s3 = []"
  proof (cases rule: ufs_close_cases [of s2 "int ?i"])
    case bad
    with l2 show ?thesis by simp
  next
    case (closed d f s')
    from closed(1,2) l2 fp fl2' have "d = d'" "f = f'" by auto
    with closed f' fp fl2' p2 show ?thesis by (intro that [of s']) simp_all
  qed
  have sl: "slot (table s3) i = slot (table s) i" for i
  proof (cases "i = ?i")
    case True
    with sl3 show ?thesis by (simp add: free_index_free)
  next
    case False
    with ot1 ot2 ot3 show ?thesis by simp
  qed
  show ?thesis
    by (rule that [OF o inv1 p1 wr inv2 p2 cl inv3 p3 fl3 _ _ _ _ sl])
      (simp_all add: data' f')
qed

text \<open>Opening the file at the head of the list, by its name.\<close>

lemma open_head:
  assumes inv: "ufs_inv s" and plan: "alloc_plan s = []"
    and fl: "file_list s = (a, f) # fl" and f: "\<not> is_removed f" "name f = filename"
  obtains s' where
    "ufs_open filename flgs s = (int (free_index (table s)), s')"
    "ufs_inv s'" "alloc_plan s' = []"
    "locate_descriptor (int (free_index (table s))) s' =
       Some \<lparr>fileptr = a, curr_data_segment = 0, flags = flgs, byte_pos = 0\<rparr>"
    "file_list s' = (a, f\<lparr>refs := refs f + 1\<rparr>) # fl"
proof -
  let ?i = "free_index (table s)"
  from fl f have fnd: "find filename (file_list s) = Some (a, f)" by simp
  then have ex: "find filename (file_list s) \<noteq> None \<or> flgs AND UFS_CREATE \<noteq> 0" by simp
  obtain s' where o: "ufs_open filename flgs s = (int ?i, s')"
    and inv': "ufs_inv s'" and p': "alloc_plan s' = []"
    and fl': "file_list s' =
       AList.map_entry (open_target filename (file_list s)) (\<lambda>f. f\<lparr>refs := refs f + 1\<rparr>)
         (open_files filename (file_list s))"
    and sl': "slot (table s') ?i =
       Some \<lparr>fileptr = open_target filename (file_list s), curr_data_segment = 0,
             flags = flgs, byte_pos = 0\<rparr>"
    and c': "?i < file_descriptor_count s'"
    by (rule ufs_open_ok [OF inv plan ex]) blast
  from sl' have "slot (table s') ?i =
      Some \<lparr>fileptr = a, curr_data_segment = 0, flags = flgs, byte_pos = 0\<rparr>"
    by (simp add: open_found [OF fnd])
  from locate_descriptor_opened [OF this c'] have l: "locate_descriptor (int ?i) s' =
      Some \<lparr>fileptr = a, curr_data_segment = 0, flags = flgs, byte_pos = 0\<rparr>" .
  from fl' have "file_list s' = (a, f\<lparr>refs := refs f + 1\<rparr>) # fl"
    unfolding open_found [OF fnd] by (simp add: fl)
  with o inv' p' l show ?thesis by (rule that)
qed

text \<open>
  C1. The round trip. In a well-formed state in which every allocation succeeds and no
  visible file has the name, for every byte sequence \<open>B\<close> of at most 100 MiB: ufs_open
  with UFS_CREATE returns a descriptor, ufs_write of \<open>B\<close> through it returns the length of
  \<open>B\<close>, ufs_close returns 0, ufs_open with UFS_READ_ONLY returns a descriptor, and a reader
  that calls ufs_read with a buffer of any positive size until it returns 0 ends (within
  \<open>length B + 1\<close> calls) and has read exactly \<open>B\<close>, in order.
\<close>

theorem ufs_round_trip:
  assumes "ufs_inv s" "alloc_plan s = []" "find filename (file_list s) = None"
    "length B \<le> MAX_FILE_SIZE" "0 < sz" "length B < fuel"
  shows "\<exists>fd s1 s2 s3 fd' s4 s5.
           ufs_open filename UFS_CREATE s = (fd, s1) \<and> 0 \<le> fd \<and>
           ufs_write fd B s1 = Some (int (length B), s2) \<and>
           ufs_close fd s2 = Some (0, s3) \<and>
           ufs_open filename UFS_READ_ONLY s3 = (fd', s4) \<and> 0 \<le> fd' \<and>
           read_until_eof fuel fd' sz s4 = Some (B, s5)"
proof -
  let ?i = "free_index (table s)" and ?a = "new_address (file_list s)"
  from assms(1-4) obtain s1 s2 s3 f where
    o: "ufs_open filename UFS_CREATE s = (int ?i, s1)"
    and w: "ufs_write (int ?i) B s1 = Some (int (length B), s2)"
    and c: "ufs_close (int ?i) s2 = Some (0, s3)"
    and inv3: "ufs_inv s3" and p3: "alloc_plan s3 = []"
    and fl3: "file_list s3 = (?a, f) # file_list s"
    and f: "chain_data (block_list f) = B" "name f = filename" "\<not> is_removed f"
    by (rule fresh_write_close) blast
  let ?j = "free_index (table s3)"
  let ?d = "\<lparr>fileptr = ?a, curr_data_segment = 0, flags = UFS_READ_ONLY, byte_pos = 0\<rparr>"
  obtain s4 where o': "ufs_open filename UFS_READ_ONLY s3 = (int ?j, s4)"
    and inv4: "ufs_inv s4" and l4: "locate_descriptor (int ?j) s4 = Some ?d"
    and fl4: "file_list s4 = (?a, f\<lparr>refs := refs f + 1\<rparr>) # file_list s"
    by (rule open_head [OF inv3 p3 fl3 f(3,2), of UFS_READ_ONLY]) blast
  have r: "is_readable (Some ?d)" by (simp add: is_readable_flags)
  have m: "map_of (file_list s4) (fileptr ?d) = Some (f\<lparr>refs := refs f + 1\<rparr>)"
    by (simp add: fl4)
  have fu: "length (chain_data (block_list (f\<lparr>refs := refs f + 1\<rparr>))) - cursor ?d < fuel"
    using assms(6) by (simp add: f(1))
  from read_until_eof_ok [OF inv4 l4 r m assms(5) fu] obtain s5 where
    "read_until_eof fuel (int ?j) sz s4 = Some (B, s5)"
    by (auto simp: cursor_def f(1))
  with o w c o' show ?thesis by (intro exI [of _ "int ?i"] exI [of _ "int ?j"] exI conjI) simp_all
qed

theorem ufs_round_trip_witness:
  "\<exists>fd s1 s2 s3 fd' s4 s5.
     ufs_open ''a'' UFS_CREATE (ufs_start []) = (fd, s1) \<and> 0 \<le> fd \<and>
     ufs_write fd [1, 2, 3] s1 = Some (3, s2) \<and>
     ufs_close fd s2 = Some (0, s3) \<and>
     ufs_open ''a'' UFS_READ_ONLY s3 = (fd', s4) \<and> 0 \<le> fd' \<and>
     read_until_eof 4 fd' 2 s4 = Some ([1, 2, 3], s5)"
  using ufs_round_trip [of "ufs_start []" "''a''" "[1, 2, 3]" 2 4]
  by (simp add: ufs_inv_start MAX_FILE_SIZE_def)

text \<open>
  C10. Every descriptor returned by a successful ufs_open (any result other than -1) has
  its cursor at block 0, byte 0, whatever the flags and also when the file existed before
  and has content (then the descriptor points to that file, whose blocks the call leaves
  as they were). There is no append mode: when every allocation succeeds, a write of
  \<open>buf\<close> through such a descriptor that has permission to write and passes the size check
  returns the length of \<open>buf\<close> and leaves the payload \<open>buf\<close> followed by what the file held
  beyond the first \<open>length buf\<close> bytes.
\<close>

theorem ufs_open_cursor_at_start:
  assumes "ufs_inv s" "ufs_open filename flgs s = (fd, s')" "fd \<noteq> - 1"
  shows "\<exists>d f. locate_descriptor fd s' = Some d \<and>
           curr_data_segment d = 0 \<and> byte_pos d = 0 \<and> flags d = flgs \<and>
           map_of (file_list s') (fileptr d) = Some f \<and>
           (\<forall>a f0. find filename (file_list s) = Some (a, f0) \<longrightarrow>
              fileptr d = a \<and> block_list f = block_list f0) \<and>
           (\<forall>buf. alloc_plan s' = [] \<and> is_writable (Some d) \<and>
                  occupied (block_list f ! 0) + length buf \<le> MAX_FILE_SIZE \<longrightarrow>
              (\<exists>s'' f'. ufs_write fd buf s' = Some (int (length buf), s'') \<and>
                 map_of (file_list s'') (fileptr d) = Some f' \<and>
                 chain_data (block_list f') = buf @ drop (length buf) (chain_data (block_list f))))"
proof -
  let ?i = "free_index (table s)" and ?a = "open_target filename (file_list s)"
  let ?d = "\<lparr>fileptr = ?a, curr_data_segment = 0, flags = flgs, byte_pos = 0\<rparr>"
  from assms(1) show ?thesis
  proof (cases rule: ufs_open_cases [of s filename flgs])
    case (fail s1)
    with assms show ?thesis by simp
  next
    case (ok s1)
    with assms(2) have fd: "fd = int ?i" and s1: "s1 = s'" by simp_all
    note inv' = ok(2) [unfolded s1] and fl' = ok(4) [unfolded s1]
    from locate_descriptor_opened [OF ok(5) ok(7)] have l: "locate_descriptor fd s' = Some ?d"
      by (simp add: fd s1)
    from locate_descriptor_Some [OF inv' l] obtain f where
      f: "map_of (file_list s') (fileptr ?d) = Some f"
      by blast
    have old: "fileptr ?d = a \<and> block_list f = block_list f0"
      if "find filename (file_list s) = Some (a, f0)" for a f0
    proof -
      from assms(1) have "distinct (map fst (file_list s))" by (simp add: ufs_inv_iff)
      from find_map_of [OF this that] have "map_of (file_list s) a = Some f0" .
      with f fl' show ?thesis
        by (auto simp: open_found [OF that] map_of_map_entry_eq)
    qed
    have wr: "\<exists>s'' f'. ufs_write fd buf s' = Some (int (length buf), s'') \<and>
                 map_of (file_list s'') (fileptr ?d) = Some f' \<and>
                 chain_data (block_list f') = buf @ drop (length buf) (chain_data (block_list f))"
      if p: "alloc_plan s' = []" and w: "is_writable (Some ?d)"
        and sz: "occupied (block_list f ! 0) + length buf \<le> MAX_FILE_SIZE" for buf
      using inv' p
    proof (cases rule: ufs_write_cases [of s' fd buf])
      case nofile
      with l show ?thesis by simp
    next
      case (denied d)
      with l w show ?thesis by simp
    next
      case (toobig d f1)
      from toobig(1,3) l f have "d = ?d" "f1 = f" by auto
      with toobig(4) sz show ?thesis by simp
    next
      case (written d f1 f' d' s'')
      from written(1,3) l f have eq: "d = ?d" "f1 = f" by auto
      from written(12) f have "map_of (file_list s'') (fileptr ?d) = Some f'"
        by (simp add: eq map_of_map_entry_eq)
      moreover from written(14) have
        "chain_data (block_list f') = buf @ drop (length buf) (chain_data (block_list f))"
        by (simp add: eq cursor_def)
      ultimately show ?thesis using written(5) by blast
    qed
    from l f old wr show ?thesis
      by (intro exI [of _ ?d] exI [of _ f]) simp
  qed
qed

lemma first_block_le:
  assumes "ufs_inv s" "map_of (file_list s) a = Some f"
  shows "occupied (block_list f ! 0) \<le> BLOCK_SIZE"
proof -
  from assms have c: "chain_ok (block_list f)" by (simp add: ufs_inv_iff)
  then have "0 < length (block_list f)" by (simp add: chain_ok_def)
  from chain_ok_block [OF c this] show ?thesis by (simp add: block_ok_def)
qed

theorem ufs_open_cursor_at_start_witness:
  "\<exists>s1 s2 s3 s4 s5 d f'.
     ufs_open ''a'' UFS_CREATE (ufs_start []) = (0, s1) \<and>
     ufs_write 0 [1, 2, 3] s1 = Some (3, s2) \<and> ufs_close 0 s2 = Some (0, s3) \<and>
     ufs_open ''a'' UFS_READ_WRITE s3 = (0, s4) \<and>
     locate_descriptor 0 s4 = Some d \<and> curr_data_segment d = 0 \<and> byte_pos d = 0 \<and>
     ufs_write 0 [9] s4 = Some (1, s5) \<and>
     map_of (file_list s5) (fileptr d) = Some f' \<and> chain_data (block_list f') = [9, 2, 3]"
proof -
  let ?s = "ufs_start []"
  have len: "length [1, 2, 3 :: byte] \<le> MAX_FILE_SIZE" by (simp add: MAX_FILE_SIZE_def)
  have fresh: "find ''a'' (file_list ?s) = None" by simp
  obtain s1 s2 s3 f where
    o: "ufs_open ''a'' UFS_CREATE ?s = (int (free_index (table ?s)), s1)"
    and w: "ufs_write (int (free_index (table ?s))) [1, 2, 3] s1 = Some (int (length [1, 2, 3 :: byte]), s2)"
    and c: "ufs_close (int (free_index (table ?s))) s2 = Some (0, s3)"
    and inv3: "ufs_inv s3" and p3: "alloc_plan s3 = []"
    and fl3: "file_list s3 = (new_address (file_list ?s), f) # file_list ?s"
    and f: "chain_data (block_list f) = [1, 2, 3]" "name f = ''a''" "\<not> is_removed f"
    and sl: "\<And>i. slot (table s3) i = slot (table ?s) i"
    by (rule fresh_write_close [OF ufs_inv_start ufs_start_simps(1) fresh len]) blast
  from free_index_cong [of "table s3" "table ?s", OF sl] have i3: "free_index (table s3) = 0"
    by simp
  obtain s4 where o4: "ufs_open ''a'' UFS_READ_WRITE s3 = (int (free_index (table s3)), s4)"
    and p4: "alloc_plan s4 = []" and inv4: "ufs_inv s4"
    by (rule open_head [OF inv3 p3 fl3 f(3,2), of UFS_READ_WRITE]) blast
  have ok: "int (free_index (table s3)) \<noteq> - 1" by simp
  from fl3 f have fnd: "find ''a'' (file_list s3) = Some (new_address (file_list ?s), f)"
    by simp
  from ufs_open_cursor_at_start [OF inv3 o4 ok] obtain d f4 where
    l: "locate_descriptor (int (free_index (table s3))) s4 = Some d"
    and d: "curr_data_segment d = 0" "byte_pos d = 0" "flags d = UFS_READ_WRITE"
    and f4: "map_of (file_list s4) (fileptr d) = Some f4"
    and old: "\<forall>a f0. find ''a'' (file_list s3) = Some (a, f0) \<longrightarrow>
              fileptr d = a \<and> block_list f4 = block_list f0"
    and wr: "\<forall>buf. alloc_plan s4 = [] \<and> is_writable (Some d) \<and>
                  occupied (block_list f4 ! 0) + length buf \<le> MAX_FILE_SIZE \<longrightarrow>
              (\<exists>s'' f'. ufs_write (int (free_index (table s3))) buf s4 = Some (int (length buf), s'') \<and>
                 map_of (file_list s'') (fileptr d) = Some f' \<and>
                 chain_data (block_list f') = buf @ drop (length buf) (chain_data (block_list f4)))"
    by blast
  from old fnd have data: "chain_data (block_list f4) = [1, 2, 3]" by (simp add: f(1))
  have wd: "is_writable (Some d)" by (simp add: is_writable_flags d)
  from first_block_le [OF inv4 f4] have "occupied (block_list f4 ! 0) + length [9 :: byte] \<le> MAX_FILE_SIZE"
    by (simp add: BLOCK_SIZE_def MAX_FILE_SIZE_def)
  with wr p4 wd obtain s5 f' where
    "ufs_write (int (free_index (table s3))) [9] s4 = Some (int (length [9 :: byte]), s5)"
    "map_of (file_list s5) (fileptr d) = Some f'"
    "chain_data (block_list f') = [9] @ drop (length [9 :: byte]) (chain_data (block_list f4))"
    by blast
  with o w c o4 l d data show ?thesis
    by (intro exI [of _ s1] exI [of _ s2] exI [of _ s3] exI [of _ s4] exI [of _ s5]
          exI [of _ d] exI [of _ f']) (simp add: i3)
qed

text \<open>The first call on the empty file system, with the UFS_CREATE bit among the flags.\<close>

lemma first_open:
  assumes "flgs AND UFS_CREATE \<noteq> 0"
  obtains s1 where "ufs_open filename flgs (ufs_start []) = (0, s1)"
    "ufs_inv s1" "alloc_plan s1 = []"
    "locate_descriptor 0 s1 =
       Some \<lparr>fileptr = new_address [], curr_data_segment = 0, flags = flgs, byte_pos = 0\<rparr>"
proof -
  let ?s = "ufs_start []"
  from assms have ex: "find filename (file_list ?s) \<noteq> None \<or> flgs AND UFS_CREATE \<noteq> 0" by simp
  obtain s1 where o: "ufs_open filename flgs ?s = (int (free_index (table ?s)), s1)"
    and inv1: "ufs_inv s1" and p1: "alloc_plan s1 = []"
    and sl: "slot (table s1) (free_index (table ?s)) =
       Some \<lparr>fileptr = open_target filename (file_list ?s), curr_data_segment = 0,
             flags = flgs, byte_pos = 0\<rparr>"
    and c: "free_index (table ?s) < file_descriptor_count s1"
    by (rule ufs_open_ok [OF ufs_inv_start ufs_start_simps(1) ex]) blast
  from locate_descriptor_opened [OF sl c] have "locate_descriptor 0 s1 =
      Some \<lparr>fileptr = new_address [], curr_data_segment = 0, flags = flgs, byte_pos = 0\<rparr>"
    by (simp add: open_target_def)
  with o inv1 p1 show ?thesis by (intro that [of s1]) simp_all
qed

text \<open>
  C3. What the code does on the flags the claim is about. A file opened with
  \<open>UFS_CREATE | UFS_WRITE_ONLY\<close> cannot be written through its descriptor, one opened with
  \<open>UFS_CREATE | UFS_READ_ONLY\<close> cannot be read, and one opened with
  \<open>UFS_CREATE | UFS_READ_WRITE\<close> can be neither written nor read: ufs_open succeeds with
  descriptor 0 and the call returns -1 with UFS_ERR_NO_PERMISSION, the state otherwise
  unchanged. is_readable and is_writable compare the whole flag word with the single
  flags, while ufs_open tests the UFS_CREATE bit with a mask.
\<close>

theorem ufs_create_with_access_bit_denied:
  "fst (ufs_open ''f'' (UFS_CREATE OR UFS_WRITE_ONLY) (ufs_start [])) = 0 \<and>
   ufs_write 0 [1] (snd (ufs_open ''f'' (UFS_CREATE OR UFS_WRITE_ONLY) (ufs_start []))) =
     Some (- 1, (snd (ufs_open ''f'' (UFS_CREATE OR UFS_WRITE_ONLY) (ufs_start [])))
                  \<lparr>ufs_error_code := UFS_ERR_NO_PERMISSION\<rparr>) \<and>
   fst (ufs_open ''f'' (UFS_CREATE OR UFS_READ_ONLY) (ufs_start [])) = 0 \<and>
   ufs_read 0 1 (snd (ufs_open ''f'' (UFS_CREATE OR UFS_READ_ONLY) (ufs_start []))) =
     Some (- 1, [], (snd (ufs_open ''f'' (UFS_CREATE OR UFS_READ_ONLY) (ufs_start [])))
                  \<lparr>ufs_error_code := UFS_ERR_NO_PERMISSION\<rparr>) \<and>
   fst (ufs_open ''f'' (UFS_CREATE OR UFS_READ_WRITE) (ufs_start [])) = 0 \<and>
   ufs_write 0 [1] (snd (ufs_open ''f'' (UFS_CREATE OR UFS_READ_WRITE) (ufs_start []))) =
     Some (- 1, (snd (ufs_open ''f'' (UFS_CREATE OR UFS_READ_WRITE) (ufs_start [])))
                  \<lparr>ufs_error_code := UFS_ERR_NO_PERMISSION\<rparr>) \<and>
   ufs_read 0 1 (snd (ufs_open ''f'' (UFS_CREATE OR UFS_READ_WRITE) (ufs_start []))) =
     Some (- 1, [], (snd (ufs_open ''f'' (UFS_CREATE OR UFS_READ_WRITE) (ufs_start [])))
                  \<lparr>ufs_error_code := UFS_ERR_NO_PERMISSION\<rparr>)"
proof -
  have v: "UFS_CREATE OR UFS_WRITE_ONLY = 5" "UFS_CREATE OR UFS_READ_ONLY = 3"
    "UFS_CREATE OR UFS_READ_WRITE = 9" "(5 :: int) AND 1 = 1" "(3 :: int) AND 1 = 1"
    "(9 :: int) AND 1 = 1"
    by (simp_all add: UFS_CREATE_def UFS_WRITE_ONLY_def UFS_READ_ONLY_def UFS_READ_WRITE_def)
  have w: "fst (ufs_open ''f'' flgs (ufs_start [])) = 0 \<and>
      ufs_write 0 [1] (snd (ufs_open ''f'' flgs (ufs_start []))) =
        Some (- 1, (snd (ufs_open ''f'' flgs (ufs_start [])))\<lparr>ufs_error_code := UFS_ERR_NO_PERMISSION\<rparr>)"
    if "flgs AND UFS_CREATE \<noteq> 0" "flgs \<notin> {0, UFS_CREATE, UFS_WRITE_ONLY, UFS_READ_WRITE}" for flgs
  proof -
    from that(1) obtain s1 where "ufs_open ''f'' flgs (ufs_start []) = (0, s1)"
      "locate_descriptor 0 s1 =
         Some \<lparr>fileptr = new_address [], curr_data_segment = 0, flags = flgs, byte_pos = 0\<rparr>"
      by (rule first_open)
    with that(2) show ?thesis by (simp add: ufs_write_def is_writable_flags)
  qed
  have r: "fst (ufs_open ''f'' flgs (ufs_start [])) = 0 \<and>
      ufs_read 0 1 (snd (ufs_open ''f'' flgs (ufs_start []))) =
        Some (- 1, [], (snd (ufs_open ''f'' flgs (ufs_start [])))\<lparr>ufs_error_code := UFS_ERR_NO_PERMISSION\<rparr>)"
    if "flgs AND UFS_CREATE \<noteq> 0" "flgs \<notin> {0, UFS_CREATE, UFS_READ_ONLY, UFS_READ_WRITE}" for flgs
  proof -
    from that(1) obtain s1 where "ufs_open ''f'' flgs (ufs_start []) = (0, s1)"
      "locate_descriptor 0 s1 =
         Some \<lparr>fileptr = new_address [], curr_data_segment = 0, flags = flgs, byte_pos = 0\<rparr>"
      by (rule first_open)
    with that(2) show ?thesis by (simp add: ufs_read_def is_readable_flags)
  qed
  have c: "(5 :: int) AND UFS_CREATE \<noteq> 0" "(3 :: int) AND UFS_CREATE \<noteq> 0"
    "(9 :: int) AND UFS_CREATE \<noteq> 0"
    by (simp_all add: UFS_CREATE_def v)
  have n: "(5 :: int) \<notin> {0, UFS_CREATE, UFS_WRITE_ONLY, UFS_READ_WRITE}"
    "(3 :: int) \<notin> {0, UFS_CREATE, UFS_READ_ONLY, UFS_READ_WRITE}"
    "(9 :: int) \<notin> {0, UFS_CREATE, UFS_WRITE_ONLY, UFS_READ_WRITE}"
    "(9 :: int) \<notin> {0, UFS_CREATE, UFS_READ_ONLY, UFS_READ_WRITE}"
    by (simp_all add: UFS_CREATE_def UFS_WRITE_ONLY_def UFS_READ_ONLY_def UFS_READ_WRITE_def)
  from w [OF c(1) n(1)] r [OF c(2) n(2)] w [OF c(3) n(3)] r [OF c(3) n(4)]
  show ?thesis unfolding v(1-3) by blast
qed

lemma first_block_used:
  assumes "chain_ok bs" "chain_data bs \<noteq> []"
  shows "0 < occupied (bs ! 0)"
proof (rule ccontr)
  assume "\<not> 0 < occupied (bs ! 0)"
  then have z: "occupied (bs ! 0) = 0" by simp
  from assms(1) obtain b rest where bs: "bs = b # rest" by (cases bs) (auto simp: chain_ok_def)
  have "rest = []"
  proof (rule ccontr)
    assume "rest \<noteq> []"
    then have "Suc 0 < length bs" by (cases rest) (simp_all add: bs)
    from chain_ok_full [OF assms(1) this] z show False by (simp add: BLOCK_SIZE_def)
  qed
  with z assms(2) show False by (simp add: bs block_data_def)
qed

text \<open>The client's state \<open>one_byte_reopened\<close>.\<close>

lemma one_byte_reopened_facts:
  "ufs_inv one_byte_reopened" "alloc_plan one_byte_reopened = []"
  "map_option curr_data_segment (locate_descriptor 0 one_byte_reopened) = Some 0"
  "map_option byte_pos (locate_descriptor 0 one_byte_reopened) = Some 0"
  "map_option flags (locate_descriptor 0 one_byte_reopened) = Some UFS_READ_WRITE"
  "payload_of one_byte_reopened 0 = [1]"
proof -
  let ?s = "ufs_start []"
  have len: "length [1 :: byte] \<le> MAX_FILE_SIZE" by (simp add: MAX_FILE_SIZE_def)
  have fresh: "find ''f'' (file_list ?s) = None" by simp
  obtain s1 s2 s3 f where
    o: "ufs_open ''f'' UFS_CREATE ?s = (int (free_index (table ?s)), s1)"
    and w: "ufs_write (int (free_index (table ?s))) [1] s1 = Some (int (length [1 :: byte]), s2)"
    and c: "ufs_close (int (free_index (table ?s))) s2 = Some (0, s3)"
    and inv3: "ufs_inv s3" and p3: "alloc_plan s3 = []"
    and fl3: "file_list s3 = (new_address (file_list ?s), f) # file_list ?s"
    and f: "chain_data (block_list f) = [1]" "name f = ''f''" "\<not> is_removed f"
    and sl: "\<And>i. slot (table s3) i = slot (table ?s) i"
    by (rule fresh_write_close [OF ufs_inv_start ufs_start_simps(1) fresh len]) blast
  from free_index_cong [of "table s3" "table ?s", OF sl] have i3: "free_index (table s3) = 0"
    by simp
  obtain s4 where o4: "ufs_open ''f'' UFS_READ_WRITE s3 = (int (free_index (table s3)), s4)"
    and p4: "alloc_plan s4 = []" and inv4: "ufs_inv s4"
    and l4: "locate_descriptor (int (free_index (table s3))) s4 =
       Some \<lparr>fileptr = new_address (file_list ?s), curr_data_segment = 0,
             flags = UFS_READ_WRITE, byte_pos = 0\<rparr>"
    and fl4: "file_list s4 = (new_address (file_list ?s), f\<lparr>refs := refs f + 1\<rparr>) # file_list ?s"
    by (rule open_head [OF inv3 p3 fl3 f(3,2), of UFS_READ_WRITE]) blast
  have eq: "one_byte_reopened = s4"
    using o w c o4 by (simp add: one_byte_reopened_def)
  from inv4 p4 show "ufs_inv one_byte_reopened" "alloc_plan one_byte_reopened = []"
    by (simp_all add: eq)
  from l4 show "map_option curr_data_segment (locate_descriptor 0 one_byte_reopened) = Some 0"
    "map_option byte_pos (locate_descriptor 0 one_byte_reopened) = Some 0"
    "map_option flags (locate_descriptor 0 one_byte_reopened) = Some UFS_READ_WRITE"
    by (simp_all add: eq i3)
  from l4 fl4 f(1) show "payload_of one_byte_reopened 0 = [1]"
    by (simp add: eq i3 payload_of_def)
qed

text \<open>
  C2. What the code does on a write that fits. In the state \<open>one_byte_reopened\<close> descriptor
  0 may write, its cursor is at the start of a file of one byte, and a write of 100 MiB
  would leave a file of exactly 100 MiB, not more. ufs_write returns -1 with
  UFS_ERR_NO_MEM and writes nothing: its size check adds the size to the \<open>occupied\<close> count
  of the cursor's block, not to the cursor's \<open>byte_pos\<close>, so it counts the byte that the
  write would overwrite.
\<close>

theorem ufs_write_rejects_fitting_write:
  "payload_of one_byte_reopened 0 = [1] \<and>
   map_option cursor (locate_descriptor 0 one_byte_reopened) = Some 0 \<and>
   is_writable (locate_descriptor 0 one_byte_reopened) \<and>
   0 + length (replicate MAX_FILE_SIZE (0 :: byte)) \<le> MAX_FILE_SIZE \<and>
   ufs_write 0 (replicate MAX_FILE_SIZE 0) one_byte_reopened =
     Some (- 1, one_byte_reopened\<lparr>ufs_error_code := UFS_ERR_NO_MEM\<rparr>)"
proof -
  let ?s = one_byte_reopened
  note facts = one_byte_reopened_facts
  from facts(3) obtain d where l: "locate_descriptor 0 ?s = Some d" by auto
  with facts(3,4,5) have d: "curr_data_segment d = 0" "byte_pos d = 0" "flags d = UFS_READ_WRITE"
    by simp_all
  have wd: "is_writable (Some d)" by (simp add: is_writable_flags d)
  from locate_descriptor_Some [OF facts(1) l] obtain f where
    f: "map_of (file_list ?s) (fileptr d) = Some f" "chain_ok (block_list f)"
    by blast
  with facts(6) l have "chain_data (block_list f) = [1]" by (simp add: payload_of_def)
  with first_block_used [OF f(2)] have pos: "0 < occupied (block_list f ! 0)" by simp
  from facts(1,2) have
    "ufs_write 0 (replicate MAX_FILE_SIZE 0) ?s = Some (- 1, ?s\<lparr>ufs_error_code := UFS_ERR_NO_MEM\<rparr>)"
  proof (cases rule: ufs_write_cases [of ?s 0 "replicate MAX_FILE_SIZE 0"])
    case nofile
    with l show ?thesis by simp
  next
    case (denied d0)
    with l wd show ?thesis by simp
  next
    case (toobig d0 f0)
    then show ?thesis by simp
  next
    case (written d0 f0 f' d' s')
    from written(1,3) l f(1) have "d0 = d" "f0 = f" by auto
    with written(4) pos d show ?thesis by simp
  qed
  with facts(6) l d wd show ?thesis by (simp add: cursor_def)
qed

lemma ufs_open_absent:
  assumes "ufs_inv s" "find filename (file_list s) = None" "flgs AND UFS_CREATE = 0"
  shows "fst (ufs_open filename flgs s) = - 1"
proof -
  from open_setup_gen [OF assms(1)] obtain err0 s1 where
    e1: "(if file_descriptors s = None
          then (case fd_setup s of (err, s') \<Rightarrow> (err, s'\<lparr>ufs_error_code := err\<rparr>))
          else (UFS_ERR_NO_ERR, s)) = (err0, s1)"
    and fl: "file_list s1 = file_list s"
    by blast
  show ?thesis
    unfolding ufs_open_def e1 using assms(2,3) by (simp add: fl)
qed

lemma locate_descriptor_files [simp]:
  "locate_descriptor fd (s\<lparr>file_list := fl\<rparr>) = locate_descriptor fd s"
  "locate_descriptor fd (s\<lparr>ufs_error_code := e\<rparr>) = locate_descriptor fd s"
  by (simp_all add: locate_descriptor_def table_def)

lemma visible_member:
  "map_of fl a = Some f \<Longrightarrow> \<not> is_removed f \<Longrightarrow> name f \<in> set (visible_names fl)"
proof (induction fl)
  case Nil
  then show ?case by simp
next
  case (Cons x fl)
  obtain b g where x: "x = (b, g)" by (cases x)
  from Cons show ?case by (auto simp: x split: if_splits)
qed

lemma visible_delete_gone:
  assumes "distinct (visible_names fl)" "map_of fl a = Some f" "\<not> is_removed f"
  shows "name f \<notin> set (visible_names (AList.delete a fl))"
  using assms
proof (induction fl)
  case Nil
  then show ?case by simp
next
  case (Cons x fl)
  obtain b g where x: "x = (b, g)" by (cases x)
  show ?case
  proof (cases "b = a")
    case True
    with Cons.prems x have "name f \<notin> set (visible_names fl)" by simp
    with set_visible_delete [of a fl] True x show ?thesis by auto
  next
    case False
    with Cons.prems x have m: "map_of fl a = Some f" and d: "distinct (visible_names fl)"
      by (simp_all split: if_splits)
    from Cons.IH [OF d m Cons.prems(3)] have ih: "name f \<notin> set (visible_names (AList.delete a fl))" .
    from visible_member [OF m Cons.prems(3)] Cons.prems(1) x
    have "\<not> is_removed g \<Longrightarrow> name g \<noteq> name f" by auto
    with ih False x show ?thesis by auto
  qed
qed

lemma map_of_delete_same: "map_of (AList.delete a fl) a = None"
  by (simp add: delete_conv')

text \<open>
  Closing a descriptor of a file in any well-formed state succeeds; the file leaves the
  file list, blocks and all, exactly when it was marked removed and this was its last
  descriptor, and otherwise stays with one reference less.
\<close>

lemma ufs_close_file:
  assumes "ufs_inv t" "locate_descriptor fd t = Some d" "map_of (file_list t) (fileptr d) = Some g"
  shows "\<exists>t'. ufs_close fd t = Some (0, t') \<and> ufs_inv t' \<and>
           map_of (file_list t') (fileptr d) =
             (if refs g = 1 \<and> is_removed g then None else Some (g\<lparr>refs := refs g - 1\<rparr>))"
  using assms(1)
proof (cases rule: ufs_close_cases [of t fd])
  case bad
  with assms(2) show ?thesis by simp
next
  case (closed d0 f0 t')
  from closed(1,2) assms(2,3) have eq: "d0 = d" "f0 = g" by auto
  from closed(8) assms(3) have
    "map_of (file_list t') (fileptr d) =
       (if refs g = 1 \<and> is_removed g then None else Some (g\<lparr>refs := refs g - 1\<rparr>))"
    by (auto simp: eq map_of_delete_same map_of_map_entry_eq)
  with closed(3,4) show ?thesis by simp
qed

text \<open>A descriptor in a slot of a well-formed table is below the logical count.\<close>

lemma slot_locate:
  assumes "ufs_inv s" "slot (table s) i = Some d"
  shows "locate_descriptor (int i) s = Some d"
proof -
  from assms(2) obtain t where t: "file_descriptors s = Some t" "i < length t" "t ! i = Some d"
    by (cases "file_descriptors s") (auto simp: table_def slot_def split: if_splits)
  with assms(1) have "list_all (\<lambda>x. x = None) (drop (file_descriptor_count s) t)"
    by (simp add: ufs_inv_iff table_ok_def)
  then have "\<forall>k < length t - file_descriptor_count s. t ! (file_descriptor_count s + k) = None"
    by (simp add: list_all_length)
  have "i < file_descriptor_count s"
  proof (rule ccontr)
    assume "\<not> i < file_descriptor_count s"
    then obtain k where k: "i = file_descriptor_count s + k" by (auto simp: not_less le_iff_add)
    with t(2) have "k < length t - file_descriptor_count s" by simp
    with \<open>\<forall>k < length t - file_descriptor_count s. t ! (file_descriptor_count s + k) = None\<close>
    have "t ! i = None" by (simp add: k)
    with t(3) show False by simp
  qed
  with assms(2) show ?thesis by (simp add: locate_descriptor_def)
qed

lemma locate_slot: "locate_descriptor (int i) s = Some d \<Longrightarrow> slot (table s) i = Some d"
  by (simp add: locate_descriptor_def split: if_splits)

text \<open>Creating a file and writing \<open>B\<close> to it, the descriptor kept open.\<close>

lemma fresh_write:
  assumes inv: "ufs_inv s" and plan: "alloc_plan s = []"
    and fresh: "find filename (file_list s) = None" and len: "length B \<le> MAX_FILE_SIZE"
  obtains s1 s2 f d where
    "ufs_open filename UFS_CREATE s = (int (free_index (table s)), s1)"
    "ufs_write (int (free_index (table s))) B s1 = Some (int (length B), s2)"
    "ufs_inv s2" "alloc_plan s2 = []"
    "file_list s2 = (new_address (file_list s), f) # file_list s"
    "chain_data (block_list f) = B" "refs f = 1" "name f = filename" "\<not> is_removed f"
    "locate_descriptor (int (free_index (table s))) s2 = Some d"
    "fileptr d = new_address (file_list s)" "flags d = UFS_CREATE" "cursor d = length B"
    "\<And>i. i \<noteq> free_index (table s) \<Longrightarrow> slot (table s2) i = slot (table s) i"
proof -
  let ?i = "free_index (table s)" and ?a = "new_address (file_list s)"
  let ?d = "\<lparr>fileptr = ?a, curr_data_segment = 0, flags = UFS_CREATE, byte_pos = 0\<rparr>"
  let ?e = "(empty_file filename)\<lparr>refs := refs (empty_file filename) + 1\<rparr>"
  obtain s1 where o: "ufs_open filename UFS_CREATE s = (int ?i, s1)"
    and inv1: "ufs_inv s1" and p1: "alloc_plan s1 = []"
    and fl1: "file_list s1 =
       AList.map_entry (open_target filename (file_list s)) (\<lambda>f. f\<lparr>refs := refs f + 1\<rparr>)
         (open_files filename (file_list s))"
    and sl1: "slot (table s1) ?i =
       Some \<lparr>fileptr = open_target filename (file_list s), curr_data_segment = 0,
             flags = UFS_CREATE, byte_pos = 0\<rparr>"
    and ot1: "\<And>i. i \<noteq> ?i \<Longrightarrow> slot (table s1) i = slot (table s) i"
    and c1: "?i < file_descriptor_count s1"
    by (rule ufs_open_ok [OF inv plan create_bit, of filename]) blast
  from fl1 fresh have fl1': "file_list s1 = (?a, ?e) # file_list s" by simp
  from sl1 fresh have sl1': "slot (table s1) ?i = Some ?d" by simp
  from locate_descriptor_opened [OF sl1' c1] have l1: "locate_descriptor (int ?i) s1 = Some ?d" .
  have w: "is_writable (Some ?d)" by (simp add: is_writable_flags)
  have m1: "map_of (file_list s1) ?a = Some ?e" by (simp add: fl1')
  from inv1 p1 obtain f' d' s2 where
    wr: "ufs_write (int ?i) B s1 = Some (int (length B), s2)"
    and inv2: "ufs_inv s2" and p2: "alloc_plan s2 = []"
    and l2: "locate_descriptor (int ?i) s2 = Some d'" and sd: "same_desc ?d d'"
    and cu: "cursor d' = cursor ?d + length B"
    and fl2: "file_list s2 = AList.map_entry ?a (\<lambda>_. f') (file_list s1)"
    and sf: "same_file ?e f'"
    and data: "chain_data (block_list f') =
         take (cursor ?d) (chain_data (block_list ?e)) @ B @
         drop (cursor ?d + length B) (chain_data (block_list ?e))"
    and ot2: "\<And>i. i \<noteq> ?i \<Longrightarrow> slot (table s2) i = slot (table s1) i"
  proof (cases rule: ufs_write_cases [of s1 "int ?i" B])
    case nofile
    with l1 show ?thesis by simp
  next
    case (denied d)
    with l1 w show ?thesis by simp
  next
    case (toobig d f)
    from toobig(1,3) l1 m1 have "d = ?d" "f = ?e" by auto
    with toobig(4) len show ?thesis by simp
  next
    case (written d f f' d' s')
    from written(1,3) l1 m1 have "d = ?d" "f = ?e" by auto
    with written show ?thesis by (intro that [of s' d' f']) simp_all
  qed
  from data have data': "chain_data (block_list f') = B" by simp
  from fl2 have fl2': "file_list s2 = (?a, f') # file_list s" by (simp add: fl1')
  from sd have d': "fileptr d' = ?a" "flags d' = UFS_CREATE" by (simp_all add: same_desc_def)
  from cu have cu': "cursor d' = length B" by (simp add: cursor_def)
  from sf have f': "refs f' = 1" "name f' = filename" "\<not> is_removed f'"
    by (simp_all add: same_file_def empty_file_def)
  have ot: "slot (table s2) i = slot (table s) i" if "i \<noteq> ?i" for i
    using ot1 [OF that] ot2 [OF that] by simp
  show ?thesis
    by (rule that [OF o wr inv2 p2 fl2' data' f' l2 d' cu' ot])
qed

text \<open>Opening the file at the head of the list once more: the other descriptors stay.\<close>

lemma open_head_again:
  assumes inv: "ufs_inv s" and plan: "alloc_plan s = []"
    and fl: "file_list s = (a, f) # fl" and f: "\<not> is_removed f" "name f = filename"
  obtains s' where
    "ufs_open filename flgs s = (int (free_index (table s)), s')"
    "ufs_inv s'" "alloc_plan s' = []"
    "locate_descriptor (int (free_index (table s))) s' =
       Some \<lparr>fileptr = a, curr_data_segment = 0, flags = flgs, byte_pos = 0\<rparr>"
    "file_list s' = (a, f\<lparr>refs := refs f + 1\<rparr>) # fl"
    "\<And>i. i \<noteq> free_index (table s) \<Longrightarrow> slot (table s') i = slot (table s) i"
proof -
  let ?i = "free_index (table s)"
  from fl f have fnd: "find filename (file_list s) = Some (a, f)" by simp
  then have ex: "find filename (file_list s) \<noteq> None \<or> flgs AND UFS_CREATE \<noteq> 0" by simp
  obtain s' where o: "ufs_open filename flgs s = (int ?i, s')"
    and ot: "\<And>i. i \<noteq> ?i \<Longrightarrow> slot (table s') i = slot (table s) i"
    by (rule ufs_open_ok [OF inv plan ex]) blast
  obtain s'' where o': "ufs_open filename flgs s = (int ?i, s'')"
    and rest: "ufs_inv s''" "alloc_plan s'' = []"
    "locate_descriptor (int ?i) s'' =
       Some \<lparr>fileptr = a, curr_data_segment = 0, flags = flgs, byte_pos = 0\<rparr>"
    "file_list s'' = (a, f\<lparr>refs := refs f + 1\<rparr>) # fl"
    by (rule open_head [OF inv plan fl f, of flgs]) blast
  from o o' have "s'' = s'" by simp
  with o rest ot show ?thesis by (intro that [of s']) simp_all
qed

text \<open>
  C4. Deleting a visible file \<open>f\<close> (at address \<open>a\<close>) in a well-formed state returns 0,
  leaves every descriptor as it was, and the name is no longer found. With no reference
  the file is gone from the file list at once. With references it stays, marked removed
  and with its blocks: a later ufs_open of the name succeeds only with the UFS_CREATE bit
  (and does succeed with it when every allocation succeeds) and then opens a new, empty
  file at another address, the old one untouched; a read through a descriptor that was
  open on it returns the old file's bytes from that descriptor's cursor, and a write
  through it that passes the size check goes into the old, still removed file; and
  closing a descriptor of a removed file, in any well-formed state, removes the file with
  its chain when that was its last reference and otherwise only counts the reference
  down.
\<close>

theorem ufs_deferred_deletion:
  assumes "ufs_inv s" "find filename (file_list s) = Some (a, f)"
  shows "\<exists>s'. ufs_delete filename s = (0, s') \<and> ufs_inv s' \<and>
           find filename (file_list s') = None \<and>
           (\<forall>fd. locate_descriptor fd s' = locate_descriptor fd s) \<and>
           (refs f = 0 \<longrightarrow> map_of (file_list s') a = None) \<and>
           (refs f \<noteq> 0 \<longrightarrow>
              map_of (file_list s') a = Some (f\<lparr>is_removed := True\<rparr>) \<and>
              (\<forall>flgs fd s''. ufs_open filename flgs s' = (fd, s'') \<and> fd \<noteq> - 1 \<longrightarrow>
                 flgs AND UFS_CREATE \<noteq> 0 \<and>
                 (\<exists>d. locate_descriptor fd s'' = Some d \<and> fileptr d \<noteq> a \<and>
                      map_of (file_list s'') (fileptr d) =
                        Some ((empty_file filename)\<lparr>refs := 1\<rparr>)) \<and>
                 map_of (file_list s'') a = Some (f\<lparr>is_removed := True\<rparr>)) \<and>
              (\<forall>flgs. alloc_plan s = [] \<and> flgs AND UFS_CREATE \<noteq> 0 \<longrightarrow>
                 0 \<le> fst (ufs_open filename flgs s')) \<and>
              (\<forall>fd d sz. locate_descriptor fd s = Some d \<and> fileptr d = a \<and>
                         is_readable (Some d) \<longrightarrow>
                 (\<exists>s''. ufs_read fd sz s' =
                    Some (int (length (take sz (drop (cursor d) (chain_data (block_list f))))),
                          take sz (drop (cursor d) (chain_data (block_list f))), s''))) \<and>
              (\<forall>fd d buf. locate_descriptor fd s = Some d \<and> fileptr d = a \<and>
                         is_writable (Some d) \<and> alloc_plan s = [] \<and>
                         occupied (block_list f ! curr_data_segment d) +
                           curr_data_segment d * BLOCK_SIZE + length buf \<le> MAX_FILE_SIZE \<longrightarrow>
                 (\<exists>s'' f'. ufs_write fd buf s' = Some (int (length buf), s'') \<and>
                    map_of (file_list s'') a = Some f' \<and> is_removed f' \<and>
                    chain_data (block_list f') =
                      take (cursor d) (chain_data (block_list f)) @ buf @
                      drop (cursor d + length buf) (chain_data (block_list f))))) \<and>
           (\<forall>t fd d g. ufs_inv t \<and> locate_descriptor fd t = Some d \<and>
                       map_of (file_list t) (fileptr d) = Some g \<and> is_removed g \<longrightarrow>
              (\<exists>t'. ufs_close fd t = Some (0, t') \<and> ufs_inv t' \<and>
                 map_of (file_list t') (fileptr d) =
                   (if refs g = 1 then None else Some (g\<lparr>refs := refs g - 1\<rparr>))))"
proof -
  have closes: "\<exists>t'. ufs_close fd t = Some (0, t') \<and> ufs_inv t' \<and>
      map_of (file_list t') (fileptr d) =
        (if refs g = 1 then None else Some (g\<lparr>refs := refs g - 1\<rparr>))"
    if "ufs_inv t \<and> locate_descriptor fd t = Some d \<and>
        map_of (file_list t) (fileptr d) = Some g \<and> is_removed g" for t fd d g
  proof -
    from that have t: "ufs_inv t" "locate_descriptor fd t = Some d"
      "map_of (file_list t) (fileptr d) = Some g" "is_removed g"
      by simp_all
    from ufs_close_file [OF t(1-3)] t(4) show ?thesis by auto
  qed
  from assms(1) have dist: "distinct (map fst (file_list s))" by (simp add: ufs_inv_iff)
  from find_map_of [OF dist assms(2)] have mf: "map_of (file_list s) a = Some f" .
  from assms(1) show ?thesis
  proof (cases rule: ufs_delete_cases [of s filename])
    case nofile
    with assms(2) show ?thesis by simp
  next
    case (destroyed a0 f0)
    with assms(2) have eq: "a0 = a" "f0 = f" by simp_all
    let ?s' = "s\<lparr>file_list := AList.delete a (file_list s), ufs_error_code := UFS_ERR_NO_ERR\<rparr>"
    have "find filename (file_list ?s') = None"
    proof -
      from assms(1) have dv: "distinct (visible_names (file_list s))" by (simp add: ufs_inv_iff)
      from find_Some [OF assms(2)] have v: "\<not> is_removed f" "name f = filename" by simp_all
      from visible_delete_gone [OF dv mf v(1)] v(2)
      show ?thesis by (simp add: find_None)
    qed
    then have fnd: "find filename (file_list ?s') = None" .
    from destroyed(3) have del: "ufs_delete filename s = (0, ?s')" by (simp add: eq)
    note inv' = destroyed(4) [unfolded eq]
    have loc: "\<forall>fd. locate_descriptor fd ?s' = locate_descriptor fd s" by simp
    from destroyed(2) have r0: "refs f = 0" by (simp add: eq)
    have gone: "map_of (file_list ?s') a = None" by (simp add: map_of_delete_same)
    from closes have C: "\<forall>t fd d g. ufs_inv t \<and> locate_descriptor fd t = Some d \<and>
                       map_of (file_list t) (fileptr d) = Some g \<and> is_removed g \<longrightarrow>
              (\<exists>t'. ufs_close fd t = Some (0, t') \<and> ufs_inv t' \<and>
                 map_of (file_list t') (fileptr d) =
                   (if refs g = 1 then None else Some (g\<lparr>refs := refs g - 1\<rparr>)))"
      by blast
    from del inv' fnd loc r0 gone C show ?thesis by blast
  next
    case (hidden a0 f0)
    with assms(2) have eq: "a0 = a" "f0 = f" by simp_all
    let ?fl = "AList.map_entry a (\<lambda>f. f\<lparr>is_removed := True\<rparr>) (file_list s)"
    let ?s' = "s\<lparr>file_list := ?fl, ufs_error_code := UFS_ERR_NO_ERR\<rparr>"
    note inv' = hidden(4) [unfolded eq]
    have fnd: "find filename (file_list ?s') = None" using hidden(5) by (simp add: eq)
    have m': "map_of (file_list ?s') a = Some (f\<lparr>is_removed := True\<rparr>)"
      by (simp add: map_of_map_entry_eq mf)
    have opens_new: "flgs AND UFS_CREATE \<noteq> 0 \<and>
         (\<exists>d. locate_descriptor fd s'' = Some d \<and> fileptr d \<noteq> a \<and>
              map_of (file_list s'') (fileptr d) = Some ((empty_file filename)\<lparr>refs := 1\<rparr>)) \<and>
         map_of (file_list s'') a = Some (f\<lparr>is_removed := True\<rparr>)"
      if "ufs_open filename flgs ?s' = (fd, s'') \<and> fd \<noteq> - 1" for flgs fd s''
    proof -
      from that have o: "ufs_open filename flgs ?s' = (fd, s'')" and ok: "fd \<noteq> - 1" by simp_all
      have c: "flgs AND UFS_CREATE \<noteq> 0"
      proof
        assume "flgs AND UFS_CREATE = 0"
        from ufs_open_absent [OF inv' fnd this] o ok show False by simp
      qed
      let ?b = "new_address ?fl"
      have "map_of ?fl a = Some (f\<lparr>is_removed := True\<rparr>)"
        by (simp add: map_of_map_entry_eq mf)
      from map_of_SomeD [OF this] have "a \<in> fst ` set ?fl" by force
      with new_address_fresh [of ?fl] have ba: "?b \<noteq> a" by auto
      from inv' show ?thesis
      proof (cases rule: ufs_open_cases [of ?s' filename flgs])
        case (fail s1)
        with o ok show ?thesis by simp
      next
        case (ok s1)
        with o have s1: "s1 = s''" and fd: "fd = int (free_index (table ?s'))" by simp_all
        from locate_descriptor_opened [OF ok(5) ok(7)] have
          l: "locate_descriptor fd s'' =
                Some \<lparr>fileptr = ?b, curr_data_segment = 0, flags = flgs, byte_pos = 0\<rparr>"
          using fnd by (simp add: s1 fd open_target_def)
        from ok(4) fnd have fl'': "file_list s'' =
            AList.map_entry ?b (\<lambda>f. f\<lparr>refs := refs f + 1\<rparr>) ((?b, empty_file filename) # ?fl)"
          by (simp add: s1 open_target_def open_files_def)
        have 1: "map_of (file_list s'') ?b = Some ((empty_file filename)\<lparr>refs := 1\<rparr>)"
          by (simp add: fl'' empty_file_def)
        have 2: "map_of (file_list s'') a = Some (f\<lparr>is_removed := True\<rparr>)"
          using ba m' by (simp add: fl'')
        from c l ba 1 2 show ?thesis by simp
      qed
    qed
    have reads_old: "\<exists>s''. ufs_read fd sz ?s' =
        Some (int (length (take sz (drop (cursor d) (chain_data (block_list f))))),
              take sz (drop (cursor d) (chain_data (block_list f))), s'')"
      if "locate_descriptor fd s = Some d \<and> fileptr d = a \<and> is_readable (Some d)" for fd d sz
    proof -
      from that have l: "locate_descriptor fd ?s' = Some d" and a: "fileptr d = a"
        and r: "is_readable (Some d)" by simp_all
      from inv' show ?thesis
      proof (cases rule: ufs_read_cases [of ?s' fd sz])
        case nofile
        with l show ?thesis by simp
      next
        case (denied d0)
        with l r show ?thesis by simp
      next
        case (finished d0 f0 d' s'')
        from finished(1) l have "d0 = d" by simp
        with finished(3) m' a have "f0 = f\<lparr>is_removed := True\<rparr>" by simp
        with finished(4) \<open>d0 = d\<close> show ?thesis by simp
      qed
    qed
    have succeeds: "0 \<le> fst (ufs_open filename flgs ?s')"
      if "alloc_plan s = [] \<and> flgs AND UFS_CREATE \<noteq> 0" for flgs
    proof -
      from that have p: "alloc_plan ?s' = []"
        and ex: "find filename (file_list ?s') \<noteq> None \<or> flgs AND UFS_CREATE \<noteq> 0"
        by simp_all
      obtain s'' where "ufs_open filename flgs ?s' = (int (free_index (table ?s')), s'')"
        by (rule ufs_open_ok [OF inv' p ex]) blast
      then show ?thesis by simp
    qed
    have writes_old: "\<exists>s'' f'. ufs_write fd buf ?s' = Some (int (length buf), s'') \<and>
        map_of (file_list s'') a = Some f' \<and> is_removed f' \<and>
        chain_data (block_list f') =
          take (cursor d) (chain_data (block_list f)) @ buf @
          drop (cursor d + length buf) (chain_data (block_list f))"
      if "locate_descriptor fd s = Some d \<and> fileptr d = a \<and>
          is_writable (Some d) \<and> alloc_plan s = [] \<and>
          occupied (block_list f ! curr_data_segment d) +
            curr_data_segment d * BLOCK_SIZE + length buf \<le> MAX_FILE_SIZE" for fd d buf
    proof -
      from that have l: "locate_descriptor fd ?s' = Some d" and a: "fileptr d = a"
        and w: "is_writable (Some d)" and p: "alloc_plan ?s' = []"
        and fits: "occupied (block_list f ! curr_data_segment d) +
            curr_data_segment d * BLOCK_SIZE + length buf \<le> MAX_FILE_SIZE"
        by simp_all
      from inv' p show ?thesis
      proof (cases rule: ufs_write_cases [of ?s' fd buf])
        case nofile
        with l show ?thesis by simp
      next
        case (denied d0)
        with l w show ?thesis by simp
      next
        case (toobig d0 f0)
        from toobig(1) l have "d0 = d" by simp
        with toobig(3) m' a have "f0 = f\<lparr>is_removed := True\<rparr>" by simp
        with toobig(4) \<open>d0 = d\<close> fits show ?thesis by simp
      next
        case (written d0 f0 f' d' s'')
        from written(1) l have d0: "d0 = d" by simp
        with written(3) m' a have f0: "f0 = f\<lparr>is_removed := True\<rparr>" by simp
        from written(12) have 1: "map_of (file_list s'') a = Some f'"
          by (simp add: d0 a map_of_map_entry_eq mf)
        from written(13) have 2: "is_removed f'" by (simp add: f0 same_file_def)
        from written(14) have 3: "chain_data (block_list f') =
            take (cursor d) (chain_data (block_list f)) @ buf @
            drop (cursor d + length buf) (chain_data (block_list f))"
          by (simp add: d0 f0)
        from written(5) 1 2 3 show ?thesis by blast
      qed
    qed
    from hidden(3) have del: "ufs_delete filename s = (0, ?s')" by (simp add: eq)
    have loc: "\<forall>fd. locate_descriptor fd ?s' = locate_descriptor fd s" by simp
    from hidden(2) have r0: "refs f \<noteq> 0" by (simp add: eq)
    from succeeds have S: "\<forall>flgs. alloc_plan s = [] \<and> flgs AND UFS_CREATE \<noteq> 0 \<longrightarrow>
                 0 \<le> fst (ufs_open filename flgs ?s')"
      by blast
    from writes_old have W: "\<forall>fd d buf. locate_descriptor fd s = Some d \<and> fileptr d = a \<and>
                         is_writable (Some d) \<and> alloc_plan s = [] \<and>
                         occupied (block_list f ! curr_data_segment d) +
                           curr_data_segment d * BLOCK_SIZE + length buf \<le> MAX_FILE_SIZE \<longrightarrow>
                 (\<exists>s'' f'. ufs_write fd buf ?s' = Some (int (length buf), s'') \<and>
                    map_of (file_list s'') a = Some f' \<and> is_removed f' \<and>
                    chain_data (block_list f') =
                      take (cursor d) (chain_data (block_list f)) @ buf @
                      drop (cursor d + length buf) (chain_data (block_list f)))"
      by blast
    from opens_new have A: "\<forall>flgs fd s''. ufs_open filename flgs ?s' = (fd, s'') \<and> fd \<noteq> - 1 \<longrightarrow>
                 flgs AND UFS_CREATE \<noteq> 0 \<and>
                 (\<exists>d. locate_descriptor fd s'' = Some d \<and> fileptr d \<noteq> a \<and>
                      map_of (file_list s'') (fileptr d) =
                        Some ((empty_file filename)\<lparr>refs := 1\<rparr>)) \<and>
                 map_of (file_list s'') a = Some (f\<lparr>is_removed := True\<rparr>)"
      by blast
    from reads_old have B: "\<forall>fd d sz. locate_descriptor fd s = Some d \<and> fileptr d = a \<and>
                         is_readable (Some d) \<longrightarrow>
                 (\<exists>s''. ufs_read fd sz ?s' =
                    Some (int (length (take sz (drop (cursor d) (chain_data (block_list f))))),
                          take sz (drop (cursor d) (chain_data (block_list f))), s''))"
      by blast
    from closes have C: "\<forall>t fd d g. ufs_inv t \<and> locate_descriptor fd t = Some d \<and>
                       map_of (file_list t) (fileptr d) = Some g \<and> is_removed g \<longrightarrow>
              (\<exists>t'. ufs_close fd t = Some (0, t') \<and> ufs_inv t' \<and>
                 map_of (file_list t') (fileptr d) =
                   (if refs g = 1 then None else Some (g\<lparr>refs := refs g - 1\<rparr>)))"
      by blast
    from del inv' fnd loc r0 m' A S B W C show ?thesis by blast
  qed
qed

theorem ufs_deferred_deletion_witness:
  "\<exists>s1 s2 s3 s4 s5 s6 s7.
     ufs_open ''a'' UFS_CREATE (ufs_start []) = (0, s1) \<and>
     ufs_write 0 [1, 2, 3] s1 = Some (3, s2) \<and>
     ufs_open ''a'' UFS_READ_ONLY s2 = (1, s3) \<and>
     find ''a'' (file_list s3) \<noteq> None \<and>
     ufs_delete ''a'' s3 = (0, s4) \<and>
     find ''a'' (file_list s4) = None \<and>
     payload_of s4 0 = [1, 2, 3] \<and> payload_of s4 1 = [1, 2, 3] \<and>
     ufs_read 1 2 s4 = Some (2, [1, 2], s5) \<and>
     0 \<le> fst (ufs_open ''a'' UFS_CREATE s4) \<and>
     payload_of (snd (ufs_open ''a'' UFS_CREATE s4)) (fst (ufs_open ''a'' UFS_CREATE s4)) = [] \<and>
     payload_of (snd (ufs_open ''a'' UFS_CREATE s4)) 1 = [1, 2, 3] \<and>
     ufs_close 0 s4 = Some (0, s6) \<and> payload_of s6 1 = [1, 2, 3] \<and>
     ufs_close 1 s6 = Some (0, s7) \<and> map_of (file_list s7) (new_address []) = None \<and>
     (\<exists>t1 t2 t3 t4.
        ufs_open ''b'' UFS_CREATE (ufs_start []) = (0, t1) \<and>
        ufs_write 0 [7] t1 = Some (1, t2) \<and> ufs_close 0 t2 = Some (0, t3) \<and>
        map_of (file_list t3) (new_address []) \<noteq> None \<and>
        ufs_delete ''b'' t3 = (0, t4) \<and> map_of (file_list t4) (new_address []) = None)"
proof -
  let ?s = "ufs_start []" and ?a = "new_address []"
  have len: "length [1, 2, 3 :: byte] \<le> MAX_FILE_SIZE" by (simp add: MAX_FILE_SIZE_def)
  have fresh: "find ''a'' (file_list ?s) = None" by simp
  obtain s1 s2 f d0 where
    o1: "ufs_open ''a'' UFS_CREATE ?s = (int (free_index (table ?s)), s1)"
    and w: "ufs_write (int (free_index (table ?s))) [1, 2, 3] s1 = Some (int (length [1, 2, 3 :: byte]), s2)"
    and inv2: "ufs_inv s2" and p2: "alloc_plan s2 = []"
    and fl2: "file_list s2 = (new_address (file_list ?s), f) # file_list ?s"
    and f: "chain_data (block_list f) = [1, 2, 3]" "refs f = 1" "name f = ''a''" "\<not> is_removed f"
    and l0: "locate_descriptor (int (free_index (table ?s))) s2 = Some d0"
    and d0: "fileptr d0 = new_address (file_list ?s)"
    and ot2: "\<And>i. i \<noteq> free_index (table ?s) \<Longrightarrow> slot (table s2) i = slot (table ?s) i"
    by (rule fresh_write [OF ufs_inv_start ufs_start_simps(1) fresh len]) blast
  from fl2 have fl2': "file_list s2 = (?a, f) # []" by simp
  from l0 have sl0: "slot (table s2) 0 = Some d0" using locate_slot [of 0 s2 d0] by simp
  have fi2: "free_index (table s2) = 1"
  proof (rule free_index_unique)
    show "slot (table s2) 1 = None" using ot2 [of 1] by simp
    show "slot (table s2) j \<noteq> None" if "j < 1" for j using that sl0 by simp
  qed
  let ?d1 = "\<lparr>fileptr = ?a, curr_data_segment = 0, flags = UFS_READ_ONLY, byte_pos = 0\<rparr>"
  let ?f3 = "f\<lparr>refs := refs f + 1\<rparr>"
  obtain s3 where o3: "ufs_open ''a'' UFS_READ_ONLY s2 = (int (free_index (table s2)), s3)"
    and inv3: "ufs_inv s3" and p3: "alloc_plan s3 = []"
    and l1: "locate_descriptor (int (free_index (table s2))) s3 = Some ?d1"
    and fl3: "file_list s3 = (?a, ?f3) # []"
    and ot3: "\<And>i. i \<noteq> free_index (table s2) \<Longrightarrow> slot (table s3) i = slot (table s2) i"
    by (rule open_head_again [OF inv2 p2 fl2' f(4,3), of UFS_READ_ONLY]) blast
  from ot3 [of 0] sl0 have "slot (table s3) 0 = Some d0" by (simp add: fi2)
  from slot_locate [OF inv3 this] have l0': "locate_descriptor 0 s3 = Some d0" by simp
  from l1 have l1': "locate_descriptor 1 s3 = Some ?d1" by (simp add: fi2)
  from fl3 f have fnd3: "find ''a'' (file_list s3) = Some (?a, ?f3)" by simp
  have r3: "refs ?f3 \<noteq> 0" by (simp add: f(2))
  let ?g = "?f3\<lparr>is_removed := True\<rparr>"
  from ufs_deferred_deletion [OF inv3 fnd3] r3 obtain s4 where
    del: "ufs_delete ''a'' s3 = (0, s4)" and inv4: "ufs_inv s4"
    and fnd4: "find ''a'' (file_list s4) = None"
    and loc: "\<forall>fd. locate_descriptor fd s4 = locate_descriptor fd s3"
    and m4: "map_of (file_list s4) ?a = Some ?g"
    and A: "\<forall>flgs fd s''. ufs_open ''a'' flgs s4 = (fd, s'') \<and> fd \<noteq> - 1 \<longrightarrow>
                 flgs AND UFS_CREATE \<noteq> 0 \<and>
                 (\<exists>d. locate_descriptor fd s'' = Some d \<and> fileptr d \<noteq> ?a \<and>
                      map_of (file_list s'') (fileptr d) = Some ((empty_file ''a'')\<lparr>refs := 1\<rparr>)) \<and>
                 map_of (file_list s'') ?a = Some ?g"
    and S: "\<forall>flgs. alloc_plan s3 = [] \<and> flgs AND UFS_CREATE \<noteq> 0 \<longrightarrow>
                 0 \<le> fst (ufs_open ''a'' flgs s4)"
    and B: "\<forall>fd d sz. locate_descriptor fd s3 = Some d \<and> fileptr d = ?a \<and>
                         is_readable (Some d) \<longrightarrow>
                 (\<exists>s''. ufs_read fd sz s4 =
                    Some (int (length (take sz (drop (cursor d) (chain_data (block_list ?f3))))),
                          take sz (drop (cursor d) (chain_data (block_list ?f3))), s''))"
    and C: "\<forall>t fd d g. ufs_inv t \<and> locate_descriptor fd t = Some d \<and>
                       map_of (file_list t) (fileptr d) = Some g \<and> is_removed g \<longrightarrow>
              (\<exists>t'. ufs_close fd t = Some (0, t') \<and> ufs_inv t' \<and>
                 map_of (file_list t') (fileptr d) =
                   (if refs g = 1 then None else Some (g\<lparr>refs := refs g - 1\<rparr>)))"
    by blast
  from loc l0' l1' have l40: "locate_descriptor 0 s4 = Some d0" and l41: "locate_descriptor 1 s4 = Some ?d1"
    by simp_all
  from d0 have d0': "fileptr d0 = ?a" by simp
  have P0: "payload_of s4 0 = [1, 2, 3]" "payload_of s4 1 = [1, 2, 3]"
    using l40 l41 m4 d0' f(1) by (simp_all add: payload_of_def)
  have rd: "is_readable (Some ?d1)" by (simp add: is_readable_flags)
  from B l1' rd obtain s5 where
    "ufs_read 1 2 s4 =
       Some (int (length (take 2 (drop (cursor ?d1) (chain_data (block_list ?f3))))),
             take 2 (drop (cursor ?d1) (chain_data (block_list ?f3))), s5)"
    by fastforce
  then have R: "ufs_read 1 2 s4 = Some (2, [1, 2], s5)"
    by (simp add: cursor_def f(1))
  have cb: "UFS_CREATE AND UFS_CREATE \<noteq> 0" by (simp add: UFS_CREATE_def)
  from S p3 cb have O1: "0 \<le> fst (ufs_open ''a'' UFS_CREATE s4)" by blast
  obtain fd s8 where o8: "ufs_open ''a'' UFS_CREATE s4 = (fd, s8)"
    by (cases "ufs_open ''a'' UFS_CREATE s4")
  with O1 have "fd \<noteq> - 1" by simp
  with A o8 obtain d8 where l8: "locate_descriptor fd s8 = Some d8" and n8: "fileptr d8 \<noteq> ?a"
    and m8: "map_of (file_list s8) (fileptr d8) = Some ((empty_file ''a'')\<lparr>refs := 1\<rparr>)"
    and old8: "map_of (file_list s8) ?a = Some ?g"
    by blast
  from l8 m8 have O2: "payload_of s8 fd = []" by (simp add: payload_of_def)
  have O3: "payload_of s8 1 = [1, 2, 3]"
  proof -
    from inv4 have "\<exists>s'. ufs_open ''a'' UFS_CREATE s4 = (fd, s') \<and>
        (\<forall>i. i \<noteq> nat fd \<longrightarrow> slot (table s') i = slot (table s4) i) \<and> ufs_inv s' \<and>
        slot (table s4) (nat fd) = None \<and> 0 \<le> fd"
    proof (cases rule: ufs_open_cases [of s4 "''a''" UFS_CREATE])
      case (fail s')
      with o8 \<open>fd \<noteq> - 1\<close> show ?thesis by simp
    next
      case (ok s')
      with o8 show ?thesis by (auto simp: free_index_free)
    qed
    with o8 have ot8: "\<And>i. i \<noteq> nat fd \<Longrightarrow> slot (table s8) i = slot (table s4) i"
      and inv8: "ufs_inv s8" and free8: "slot (table s4) (nat fd) = None"
      by simp_all
    from l41 have s41: "slot (table s4) 1 = Some ?d1" using locate_slot [of 1 s4 ?d1] by simp
    with free8 have "1 \<noteq> nat fd" by auto
    from ot8 [OF this] s41 have "slot (table s8) 1 = Some ?d1" by simp
    from slot_locate [OF inv8 this] old8 f(1) show ?thesis by (simp add: payload_of_def)
  qed
  have g: "is_removed ?g" "refs ?g = 2" by (simp_all add: f(2))
  have pre4: "ufs_inv s4 \<and> locate_descriptor 0 s4 = Some d0 \<and>
      map_of (file_list s4) (fileptr d0) = Some ?g \<and> is_removed ?g"
    using inv4 l40 m4 d0' by simp
  from C [rule_format, OF pre4] obtain s6 where c6: "ufs_close 0 s4 = Some (0, s6)"
    and inv6: "ufs_inv s6"
    and m6: "map_of (file_list s6) (fileptr d0) =
      (if refs ?g = 1 then None else Some (?g\<lparr>refs := refs ?g - 1\<rparr>))"
    by blast
  from m6 have m6': "map_of (file_list s6) ?a = Some (?g\<lparr>refs := 1\<rparr>)" by (simp add: f(2) d0')
  from inv4 have "\<exists>s'. ufs_close 0 s4 = Some (0, s') \<and>
      (\<forall>i. i \<noteq> nat 0 \<longrightarrow> slot (table s') i = slot (table s4) i)"
  proof (cases rule: ufs_close_cases [of s4 0])
    case bad
    with l40 show ?thesis by simp
  next
    case (closed d f s')
    then show ?thesis by auto
  qed
  with c6 have "slot (table s6) 1 = slot (table s4) 1" by simp
  with l41 have "slot (table s6) 1 = Some ?d1" using locate_slot [of 1 s4 ?d1] by simp
  from slot_locate [OF inv6 this] have l61: "locate_descriptor 1 s6 = Some ?d1" by simp
  with m6' f(1) have P6: "payload_of s6 1 = [1, 2, 3]" by (simp add: payload_of_def)
  have g1: "is_removed (?g\<lparr>refs := 1\<rparr>)" "refs (?g\<lparr>refs := 1\<rparr>) = 1" by simp_all
  have m6'': "map_of (file_list s6) (fileptr ?d1) = Some (?g\<lparr>refs := 1\<rparr>)"
    using m6' by simp
  have pre6: "ufs_inv s6 \<and> locate_descriptor 1 s6 = Some ?d1 \<and>
      map_of (file_list s6) (fileptr ?d1) = Some (?g\<lparr>refs := 1\<rparr>) \<and> is_removed (?g\<lparr>refs := 1\<rparr>)"
    using inv6 l61 m6'' by simp
  from C [rule_format, OF pre6] obtain s7 where c7: "ufs_close 1 s6 = Some (0, s7)"
    and m7: "map_of (file_list s7) (fileptr ?d1) =
      (if refs (?g\<lparr>refs := 1\<rparr>) = 1 then None
       else Some (?g\<lparr>refs := 1, refs := refs (?g\<lparr>refs := 1\<rparr>) - 1\<rparr>))"
    by blast
  from m7 have m7': "map_of (file_list s7) ?a = None" by simp
  from o1 have o1': "ufs_open ''a'' UFS_CREATE ?s = (0, s1)" by simp
  from w have w': "ufs_write 0 [1, 2, 3] s1 = Some (3, s2)" by simp
  from o3 have o3': "ufs_open ''a'' UFS_READ_ONLY s2 = (1, s3)" by (simp add: fi2)
  from fnd3 have fnd3': "find ''a'' (file_list s3) \<noteq> None" by simp
  from O2 O3 o8 have O23: "payload_of (snd (ufs_open ''a'' UFS_CREATE s4)) (fst (ufs_open ''a'' UFS_CREATE s4)) = []"
    "payload_of (snd (ufs_open ''a'' UFS_CREATE s4)) 1 = [1, 2, 3]"
    by simp_all
  have T: "\<exists>t1 t2 t3 t4.
        ufs_open ''b'' UFS_CREATE ?s = (0, t1) \<and>
        ufs_write 0 [7] t1 = Some (1, t2) \<and> ufs_close 0 t2 = Some (0, t3) \<and>
        map_of (file_list t3) ?a \<noteq> None \<and>
        ufs_delete ''b'' t3 = (0, t4) \<and> map_of (file_list t4) ?a = None"
  proof -
    have len7: "length [7 :: byte] \<le> MAX_FILE_SIZE" by (simp add: MAX_FILE_SIZE_def)
    have fresh7: "find ''b'' (file_list ?s) = None" by simp
    obtain t1 t2 t3 h where
      a: "ufs_open ''b'' UFS_CREATE ?s = (int (free_index (table ?s)), t1)"
      and b: "ufs_write (int (free_index (table ?s))) [7] t1 = Some (int (length [7 :: byte]), t2)"
      and c: "ufs_close (int (free_index (table ?s))) t2 = Some (0, t3)"
      and inv: "ufs_inv t3"
      and fl: "file_list t3 = (new_address (file_list ?s), h) # file_list ?s"
      and h: "refs h = 0" "name h = ''b''" "\<not> is_removed h"
      by (rule fresh_write_close [OF ufs_inv_start ufs_start_simps(1) fresh7 len7]) blast
    from fl h have fnd: "find ''b'' (file_list t3) = Some (?a, h)" by simp
    from ufs_deferred_deletion [OF inv fnd] h(1) obtain t4 where
      "ufs_delete ''b'' t3 = (0, t4)" "map_of (file_list t4) ?a = None"
      by blast
    with a b c fl show ?thesis by (intro exI [of _ t1] exI [of _ t2] exI [of _ t3] exI [of _ t4]) simp
  qed
  from o1' w' o3' fnd3' del fnd4 P0 R O1 O23 c6 P6 c7 m7' T show ?thesis by blast
qed

section \<open>TPOOL: the worker counters\<close>


lemma worker_simps [simp]:
  "live Waiting" "live (Running a)" "\<not> live Exited"
  "\<not> busy Waiting" "busy (Running a)" "\<not> busy Exited"
  by (simp_all add: busy_def live_def)




text \<open>What a push does to the pool, by its return code.\<close>

lemma push_cases:
  obtains (refused) code where "code \<noteq> TPOOL_OK"
      "thread_pool_push_task lim ok pa (Some p) a t = (code, Some p, t)"
    | (pushed) t0 where "t = Some t0" "\<not> shutting_down p" "task_total p < lim"
      "state t0 = TASK_NEW \<or> state t0 = TASK_DONE"
      "thread_pool_push_task lim ok pa (Some p) a t =
         (TPOOL_OK,
          Some (p\<lparr>task_queue := task_queue p @ [a], task_total := task_total p + 1,
                  threads_created :=
                    (if threads_created p < max_threads p \<and> threads_busy p = threads_created p \<and> ok
                     then threads_created p + 1 else threads_created p)\<rparr>),
          Some (t0\<lparr>state := TASK_QUEUED, owner := Some pa\<rparr>))"
proof (cases t)
  case None
  then show ?thesis by (intro refused [of TPOOL_ERR_INVALID_ARGUMENT]) (simp_all add: thread_pool_push_task_def)
next
  case (Some t0)
  show ?thesis
  proof (cases "shutting_down p")
    case True
    with Some show ?thesis
      by (intro refused [of TPOOL_ERR_INVALID_ARGUMENT]) (simp_all add: thread_pool_push_task_def)
  next
    case sd: False
    show ?thesis
    proof (cases "task_total p \<ge> lim")
      case True
      with Some sd show ?thesis
        by (intro refused [of TPOOL_ERR_TOO_MANY_TASKS]) (simp_all add: thread_pool_push_task_def)
    next
      case tt: False
      show ?thesis
      proof (cases "state t0 \<noteq> TASK_NEW \<and> state t0 \<noteq> TASK_DONE")
        case True
        with Some sd tt show ?thesis
          by (intro refused [of TPOOL_ERR_TASK_IN_POOL]) (simp_all add: thread_pool_push_task_def)
      next
        case False
        with Some sd tt show ?thesis
          by (intro pushed [of t0]) (auto simp: thread_pool_push_task_def Let_def)
      qed
    qed
  qed
qed












text \<open>
  A task that no step has pushed is as thread_task_new left it: it is not in the queue
  and no worker runs it.
\<close>

lemma step_unpushed:
  assumes "step lim e w = Some w'" "\<forall>ok. e \<noteq> Push a ok"
    "a \<notin> set (task_queue (the_pool w))" "Running a \<notin> set (workers w)"
  shows "tasks w' a = tasks w a \<and> a \<notin> set (task_queue (the_pool w')) \<and>
         Running a \<notin> set (workers w')"
proof (cases e)
  case (Push b ok)
  with assms(2) have ba: "b \<noteq> a" by auto
  from assms(1) Push show ?thesis
  proof (cases rule: push_cases [of lim ok 0 "the_pool w" b "tasks w b"])
    case (refused code)
    with assms Push ba show ?thesis by auto
  next
    case (pushed t0)
    with assms Push ba show ?thesis by (auto split: if_splits)
  qed
next
  case (Pickup i)
  with assms(1) obtain b rest t where q: "task_queue (the_pool w) = b # rest"
    and tb: "tasks w b = Some t" and i: "i < length (workers w)"
    and w': "w' = w\<lparr>the_pool := (the_pool w)
                               \<lparr>task_queue := rest, task_total := task_total (the_pool w) - 1,
                                threads_busy := threads_busy (the_pool w) + 1\<rparr>,
                             tasks := (tasks w)(b := Some (t\<lparr>state := TASK_RUNNING\<rparr>)),
                             workers := (workers w)[i := Running b]\<rparr>"
    by (auto split: if_splits list.splits option.splits)
  from q assms(3) have ba: "b \<noteq> a" "a \<notin> set rest" by auto
  from assms(4) ba(1) have "Running a \<notin> set ((workers w)[i := Running b])"
    using set_update_subset_insert [of "workers w" i "Running b"] by auto
  with ba show ?thesis by (simp add: w')
next
  case (Finish i res)
  with assms(1) obtain b t where i: "i < length (workers w)" and wb: "workers w ! i = Running b"
    and w': "w' = w\<lparr>the_pool := (the_pool w)
                               \<lparr>threads_busy := threads_busy (the_pool w) - 1\<rparr>,
                             tasks := (tasks w)(b := Some (t\<lparr>task_result := res, state := TASK_DONE\<rparr>)),
                             workers := (workers w)[i := Waiting]\<rparr>"
    by (auto split: if_splits worker.splits option.splits)
  from i wb have "Running b \<in> set (workers w)" by (metis nth_mem)
  with assms(4) have ba: "b \<noteq> a" by auto
  from assms(4) have "Running a \<notin> set ((workers w)[i := Waiting])"
    using set_update_subset_insert [of "workers w" i Waiting] by auto
  with ba assms(3) show ?thesis by (simp add: w')
next
  case Shutdown
  with assms show ?thesis
    by (auto simp: thread_pool_delete_def split: if_splits)
next
  case (Exit i)
  with assms(1) have w': "w' = w\<lparr>the_pool := (the_pool w)
                      \<lparr>threads_created := threads_created (the_pool w) - 1\<rparr>,
                    workers := (workers w)[i := Exited]\<rparr>"
    by (auto split: if_splits)
  from assms(4) have "Running a \<notin> set ((workers w)[i := Exited])"
    using set_update_subset_insert [of "workers w" i Exited] by auto
  with assms(3) show ?thesis by (simp add: w')
qed

lemma run_unpushed:
  assumes "run lim es w = Some w'" "\<forall>ok. Push a ok \<notin> set es"
    "a \<notin> set (task_queue (the_pool w))" "Running a \<notin> set (workers w)"
  shows "tasks w' a = tasks w a"
  using assms
proof (induction es arbitrary: w)
  case Nil
  then show ?case by simp
next
  case (Cons e es)
  from Cons.prems(1) obtain w1 where s: "step lim e w = Some w1" and r: "run lim es w1 = Some w'"
    by (auto split: option.splits)
  from Cons.prems(2) have e: "\<forall>ok. e \<noteq> Push a ok" and es: "\<forall>ok. Push a ok \<notin> set es"
    by auto
  from step_unpushed [OF s e Cons.prems(3,4)] Cons.IH [OF r es] show ?case by simp
qed

text \<open>
  C8. The three refusals, each with the object as it was. thread_pool_delete on a pool
  with \<open>task_total > 0\<close> or \<open>threads_busy > 0\<close> returns TPOOL_ERR_HAS_TASKS and the pool is
  neither changed nor freed. thread_task_delete on a task in state TASK_QUEUED or
  TASK_RUNNING returns TPOOL_ERR_TASK_IN_POOL and the task is neither changed nor freed.
  thread_task_join, given a place for the result, on a task in state TASK_NEW or without
  an owner returns TPOOL_ERR_TASK_NOT_PUSHED, stores nothing and leaves the task as it
  was; and a task that no push of a run has named is in that state, so joining it gives
  that code.
\<close>

theorem tpool_lifecycle_errors:
  "(task_total p > 0 \<or> threads_busy p > 0 \<longrightarrow>
      thread_pool_delete (Some p) = (TPOOL_ERR_HAS_TASKS, Some p)) \<and>
   (state t = TASK_QUEUED \<or> state t = TASK_RUNNING \<longrightarrow>
      thread_task_delete (Some t) = (TPOOL_ERR_TASK_IN_POOL, Some t)) \<and>
   (state t = TASK_NEW \<or> owner t = None \<longrightarrow>
      thread_task_join (Some t) True = Some (TPOOL_ERR_TASK_NOT_PUSHED, None, Some t)) \<and>
   (run lim es (world_start m n) = Some w \<and> a < n \<and> (\<forall>ok. Push a ok \<notin> set es) \<longrightarrow>
      tasks w a = Some \<lparr>task_result = 0, owner = None, state = TASK_NEW\<rparr> \<and>
      thread_task_join (tasks w a) True = Some (TPOOL_ERR_TASK_NOT_PUSHED, None, tasks w a))"
proof -
  have 1: "thread_pool_delete (Some p) = (TPOOL_ERR_HAS_TASKS, Some p)"
    if "task_total p > 0 \<or> threads_busy p > 0"
    using that by (simp add: thread_pool_delete_def)
  have 2: "thread_task_delete (Some t) = (TPOOL_ERR_TASK_IN_POOL, Some t)"
    if "state t = TASK_QUEUED \<or> state t = TASK_RUNNING"
    using that by (simp add: thread_task_delete_def)
  have 3: "thread_task_join (Some t) True = Some (TPOOL_ERR_TASK_NOT_PUSHED, None, Some t)"
    if "state t = TASK_NEW \<or> owner t = None"
    using that by (simp add: thread_task_join_def)
  have 4: "tasks w a = Some \<lparr>task_result = 0, owner = None, state = TASK_NEW\<rparr> \<and>
      thread_task_join (tasks w a) True = Some (TPOOL_ERR_TASK_NOT_PUSHED, None, tasks w a)"
    if "run lim es (world_start m n) = Some w \<and> a < n \<and> (\<forall>ok. Push a ok \<notin> set es)"
  proof -
    from that have r: "run lim es (world_start m n) = Some w" and a: "a < n"
      and np: "\<forall>ok. Push a ok \<notin> set es"
      by simp_all
    have "tasks w a = tasks (world_start m n) a"
      by (rule run_unpushed [OF r np]) (simp_all add: world_start_def)
    with a have "tasks w a = Some \<lparr>task_result = 0, owner = None, state = TASK_NEW\<rparr>"
      by (simp add: world_start_def)
    then show ?thesis by (simp add: thread_task_join_def)
  qed
  from 1 2 3 4 show ?thesis by blast
qed

theorem tpool_lifecycle_errors_witness:
  "thread_pool_delete
     (Some \<lparr>max_threads = 2, threads_created = 1, threads_busy = 1, task_queue = [],
            task_total = 0, shutting_down = False\<rparr>) =
     (TPOOL_ERR_HAS_TASKS,
      Some \<lparr>max_threads = 2, threads_created = 1, threads_busy = 1, task_queue = [],
            task_total = 0, shutting_down = False\<rparr>) \<and>
   thread_task_delete (Some \<lparr>task_result = 0, owner = Some 0, state = TASK_RUNNING\<rparr>) =
     (TPOOL_ERR_TASK_IN_POOL, Some \<lparr>task_result = 0, owner = Some 0, state = TASK_RUNNING\<rparr>) \<and>
   thread_task_join (Some \<lparr>task_result = 0, owner = None, state = TASK_NEW\<rparr>) True =
     Some (TPOOL_ERR_TASK_NOT_PUSHED, None,
           Some \<lparr>task_result = 0, owner = None, state = TASK_NEW\<rparr>) \<and>
   run 100 [Push 0 True, Pickup 0] (world_start 2 2) \<noteq> None \<and>
   thread_task_join (tasks (the (run 100 [Push 0 True, Pickup 0] (world_start 2 2))) 1) True =
     Some (TPOOL_ERR_TASK_NOT_PUSHED, None,
           tasks (the (run 100 [Push 0 True, Pickup 0] (world_start 2 2))) 1)"
proof -
  let ?p = "\<lparr>max_threads = 2, threads_created = 1, threads_busy = 1, task_queue = [],
            task_total = 0, shutting_down = False\<rparr>"
  let ?t = "\<lparr>task_result = 0, owner = Some 0, state = TASK_RUNNING\<rparr>"
  let ?u = "\<lparr>task_result = 0, owner = None, state = TASK_NEW\<rparr>"
  let ?evs = "[Push 0 True, Pickup 0]"
  let ?w = "the (run 100 ?evs (world_start 2 2))"
  have N: "run 100 ?evs (world_start 2 2) \<noteq> None"
    by (simp add: world_start_def thread_pool_push_task_def)
  have r: "run 100 ?evs (world_start 2 2) = Some ?w"
    by (simp add: world_start_def thread_pool_push_task_def)
  have np: "\<forall>ok. Push 1 ok \<notin> set ?evs" by simp
  have a: "task_total ?p > 0 \<or> threads_busy ?p > 0" by simp
  have b: "state ?t = TASK_QUEUED \<or> state ?t = TASK_RUNNING" by simp
  have c: "state ?u = TASK_NEW \<or> owner ?u = None" by simp
  have d: "run 100 ?evs (world_start 2 2) = Some ?w \<and> (1 :: nat) < 2 \<and> (\<forall>ok. Push 1 ok \<notin> set ?evs)"
    using r np by (intro conjI) simp_all
  from tpool_lifecycle_errors [of ?p ?t 100 ?evs 2 2 ?w 1] a b d
  have "thread_pool_delete (Some ?p) = (TPOOL_ERR_HAS_TASKS, Some ?p)"
    "thread_task_delete (Some ?t) = (TPOOL_ERR_TASK_IN_POOL, Some ?t)"
    "thread_task_join (tasks ?w 1) True = Some (TPOOL_ERR_TASK_NOT_PUSHED, None, tasks ?w 1)"
    by blast+
  moreover from tpool_lifecycle_errors [of ?p ?u 100 ?evs 2 2 ?w 1] c
  have "thread_task_join (Some ?u) True = Some (TPOOL_ERR_TASK_NOT_PUSHED, None, Some ?u)"
    by blast
  ultimately show ?thesis using N by blast
qed

end
